theory Spec2Isabelle
  imports Main "HOL-Library.Word" "HOL-Library.Sublist"
begin

section \<open>The query cache plugin (my_query_cache_plugin.cc)\<close>

text \<open>
  The plugin keeps its entries in an intrusive doubly linked list, most recently used
  entry at \<open>head\<close>, least recently used at \<open>tail\<close>. The embedding keeps the
  list as a HOL list in head-to-tail order: \<open>ctx->head\<close> is the first element,
  \<open>ctx->tail\<close> the last, a null \<open>head\<close>/\<open>tail\<close> the empty list, and a
  \<open>CacheEntry *\<close> into the list is the position (index) of its node. The
  \<open>next\<close>/\<open>prev\<close> fields of a node are therefore not record fields: \<open>next\<close> is
  position \<open>i + 1\<close>, \<open>prev\<close> position \<open>i - 1\<close>. Unlinking a node is removing
  the element at its position, linking a node in front of \<open>head\<close> is consing it.

  C types: \<open>size_t\<close> is a 64-bit word with its wrap-around. \<open>int\<close> is modelled by
  \<open>int\<close>: \<open>entry_count\<close> and the sums \<open>query_len + result_len\<close> of stored
  entries stay inside the 32-bit range in every state a fresh context can reach (lemma
  \<open>reachable_counters\<close>); \<open>access_count\<close> is only ever incremented and its
  overflow after \<open>2^31 - 1\<close> hits, undefined in C, is not modelled. \<open>time_t\<close> is
  \<open>int\<close> (seconds; differences of clock values do not overflow 64 bits).
  \<open>sizeof(CacheEntry)\<close> is 72 on an LP64 target (nine 8-byte slots: two buffer
  pointers, two list pointers, two time stamps, three padded ints).
  \<open>time(NULL)\<close> is the parameter \<open>now\<close> of the functions that read the clock.
\<close>

type_synonym time_t = int
type_synonym size_t = "64 word"

record CacheEntry =
  query :: string
  query_len :: int
  result :: string
  result_len :: int
  created_time :: time_t
  last_access_time :: time_t
  access_count :: int

record QueryCacheContext =
  entries :: "CacheEntry list"
  entry_count :: int
  max_entries :: int
  max_size :: size_t
  current_size :: size_t
  default_ttl :: time_t

definition DEFAULT_MAX_ENTRIES :: int where
  "DEFAULT_MAX_ENTRIES = 1000"

definition DEFAULT_MAX_SIZE :: size_t where
  "DEFAULT_MAX_SIZE = 1024 * 1024 * 64"

definition DEFAULT_TTL :: time_t where
  "DEFAULT_TTL = 3600"

definition sizeof_CacheEntry :: size_t where
  "sizeof_CacheEntry = 72"

text \<open>
  Dereferencing a null context is undefined behaviour in C; the model makes it a fault.
  A \<open>void *ctx\<close> argument is \<open>None\<close> for \<open>NULL\<close> and \<open>Some c\<close> for a pointer to a
  live context whose contents are \<open>c\<close>; functions return the updated contents.
\<close>

datatype fault = NullDereference

subsection \<open>C library functions used by the plugin\<close>

definition NUL :: char where
  "NUL = CHR 0x00"

text \<open>The bytes a C string function sees in a buffer: those before the first NUL.\<close>

definition c_str :: "string \<Rightarrow> string" where
  "c_str buf = takeWhile (\<lambda>c. c \<noteq> NUL) buf"

text \<open>\<open>memcmp(a, b, n) == 0\<close>: the first \<open>n\<close> bytes agree.\<close>

definition memcmp_eq :: "string \<Rightarrow> string \<Rightarrow> nat \<Rightarrow> bool" where
  "memcmp_eq a b n = (take n a = take n b)"

text \<open>
  \<open>strstr(haystack, needle)\<close> on the two C strings: the offset of the first occurrence,
  \<open>None\<close> for the null pointer.
\<close>

fun strstr :: "string \<Rightarrow> string \<Rightarrow> nat option" where
  "strstr [] needle = (if needle = [] then Some 0 else None)"
| "strstr (c # cs) needle =
     (if take (length needle) (c # cs) = needle then Some 0
      else map_option Suc (strstr cs needle))"

subsection \<open>Context creation and teardown\<close>

text \<open>\<open>malloc_ok\<close> tells whether the allocation of the context succeeds.\<close>

definition query_cache_create_context :: "bool \<Rightarrow> QueryCacheContext option" where
  "query_cache_create_context malloc_ok =
     (if \<not> malloc_ok then None
      else Some \<lparr>entries = [], entry_count = 0, max_entries = DEFAULT_MAX_ENTRIES,
                 max_size = DEFAULT_MAX_SIZE, current_size = 0,
                 default_ttl = DEFAULT_TTL\<rparr>)"

text \<open>
  Teardown only releases memory, so its observable effect is the sequence of \<open>free\<close>
  calls it makes: for every entry its query buffer, its result buffer and the node,
  then the context.
\<close>

datatype freed = FreeQuery string | FreeResult string | FreeEntry | FreeContext

fun destroy_entries :: "CacheEntry list \<Rightarrow> freed list" where
  "destroy_entries [] = []"
| "destroy_entries (entry # rest) =
     FreeQuery (query entry) # FreeResult (result entry) # FreeEntry # destroy_entries rest"

definition query_cache_destroy_context :: "QueryCacheContext option \<Rightarrow> fault + freed list" where
  "query_cache_destroy_context ctx =
     (case ctx of
        Some cache_ctx \<Rightarrow> Inr (destroy_entries (entries cache_ctx) @ [FreeContext])
      | None \<Rightarrow> Inr [])"

subsection \<open>List surgery\<close>

text \<open>
  \<open>remove_cache_entry ctx i\<close> unlinks the node at position \<open>i\<close> and updates the
  bookkeeping. Every caller passes a position inside the list. The size of an entry is
  computed as in the source: \<open>query_len + result_len\<close> in \<open>int\<close>, converted to
  \<open>size_t\<close>, plus \<open>sizeof(CacheEntry)\<close>.
\<close>

definition remove_cache_entry :: "QueryCacheContext \<Rightarrow> nat \<Rightarrow> QueryCacheContext" where
  "remove_cache_entry ctx i =
     (let entry = entries ctx ! i in
      ctx\<lparr>entries := take i (entries ctx) @ drop (Suc i) (entries ctx),
          entry_count := entry_count ctx - 1,
          current_size := current_size ctx -
             (of_int (query_len entry + result_len entry) + sizeof_CacheEntry)\<rparr>)"

text \<open>
  \<open>add_cache_entry\<close>: the loop evicts the tail while the entry does not fit; with
  nothing left to evict the entry is freed and the function returns without inserting.
\<close>

function add_cache_entry :: "QueryCacheContext \<Rightarrow> CacheEntry \<Rightarrow> QueryCacheContext" where
  "add_cache_entry ctx entry =
     (if entry_count ctx \<ge> max_entries ctx \<or>
         current_size ctx + of_int (query_len entry) + of_int (result_len entry)
           + sizeof_CacheEntry > max_size ctx
      then (if entries ctx \<noteq> []
            then add_cache_entry (remove_cache_entry ctx (length (entries ctx) - 1)) entry
            else ctx)
      else ctx\<lparr>entries := entry # entries ctx,
               entry_count := entry_count ctx + 1,
               current_size := current_size ctx +
                 (of_int (query_len entry + result_len entry) + sizeof_CacheEntry)\<rparr>)"
  by pat_completeness auto
termination
  by (relation "measure (\<lambda>(ctx, entry). length (entries ctx))")
     (auto simp: remove_cache_entry_def Let_def)

declare add_cache_entry.simps [simp del]

subsection \<open>Lookup\<close>

text \<open>
  The scan of \<open>find_cache_entry\<close> with its cursor at position \<open>i\<close>. An expired
  entry is removed and the cursor stays on the position, which now holds the successor.
  A hit updates the entry's access data and moves it to the head; the function returns
  the entry found (which is then the head of the list).
\<close>

function find_cache_entry_from ::
  "QueryCacheContext \<Rightarrow> string \<Rightarrow> time_t \<Rightarrow> nat \<Rightarrow> QueryCacheContext \<times> CacheEntry option" where
  "find_cache_entry_from ctx qry now i =
     (if i < length (entries ctx) then
        (let entry = entries ctx ! i in
         if now - created_time entry > default_ttl ctx
         then find_cache_entry_from (remove_cache_entry ctx i) qry now i
         else if query_len entry = int (length qry) \<and>
                 memcmp_eq (query entry) qry (length qry)
         then (let entry' = entry\<lparr>last_access_time := now,
                                   access_count := access_count entry + 1\<rparr> in
               (if i \<noteq> 0
                then ctx\<lparr>entries := entry' # take i (entries ctx) @ drop (Suc i) (entries ctx)\<rparr>
                else ctx\<lparr>entries := (entries ctx)[i := entry']\<rparr>,
                Some entry'))
         else find_cache_entry_from ctx qry now (Suc i))
      else (ctx, None))"
  by pat_completeness auto
termination
  by (relation "measure (\<lambda>(ctx, qry, now, i). length (entries ctx) - i)")
     (auto simp: remove_cache_entry_def Let_def)

declare find_cache_entry_from.simps [simp del]

definition find_cache_entry ::
  "QueryCacheContext \<Rightarrow> string \<Rightarrow> time_t \<Rightarrow> QueryCacheContext \<times> CacheEntry option" where
  "find_cache_entry ctx qry now = find_cache_entry_from ctx qry now 0"

text \<open>
  \<open>query_cache_get\<close> returns the status, the out-parameters \<open>(*result, *result_len)\<close>
  when they were written, and the updated context.
\<close>

definition query_cache_get ::
  "QueryCacheContext option \<Rightarrow> string \<Rightarrow> time_t
     \<Rightarrow> fault + (int \<times> (string \<times> int) option \<times> QueryCacheContext)" where
  "query_cache_get ctx qry now =
     (case ctx of
        None \<Rightarrow> Inl NullDereference
      | Some cache_ctx \<Rightarrow>
          (case find_cache_entry cache_ctx qry now of
             (cache_ctx', Some entry) \<Rightarrow> Inr (0, Some (result entry, result_len entry), cache_ctx')
           | (cache_ctx', None) \<Rightarrow> Inr (1, None, cache_ctx')))"

subsection \<open>Insertion\<close>

text \<open>
  \<open>query_cache_put\<close> makes three allocations (node, query buffer, result buffer);
  \<open>mallocs\<close> is the number of them that succeed before one fails (3 or more: all
  succeed). The buffers \<open>(query, query_len)\<close> and \<open>(result, result_len)\<close> are the
  byte lists \<open>qry\<close> and \<open>res\<close> with their lengths.
\<close>

definition query_cache_put ::
  "QueryCacheContext option \<Rightarrow> string \<Rightarrow> string \<Rightarrow> time_t \<Rightarrow> nat
     \<Rightarrow> fault + (int \<times> QueryCacheContext option)" where
  "query_cache_put ctx qry res now mallocs =
     (if mallocs = 0 then Inr (1, ctx)
      else if mallocs = 1 then Inr (1, ctx)
      else if mallocs = 2 then Inr (1, ctx)
      else
        (let entry = \<lparr>query = qry, query_len = int (length qry),
                      result = res, result_len = int (length res),
                      created_time = now, last_access_time = now, access_count = 1\<rparr> in
         case ctx of
           None \<Rightarrow> Inl NullDereference
         | Some cache_ctx \<Rightarrow> Inr (0, Some (add_cache_entry cache_ctx entry))))"

subsection \<open>Invalidation and clearing\<close>

text \<open>
  The scan of \<open>query_cache_invalidate\<close> with its cursor at position \<open>i\<close>.
  \<open>entry->query\<close> is the stored query followed by the NUL that \<open>query_cache_put\<close>
  writes; \<open>strstr\<close> reads it and \<open>table\<close> as C strings.
\<close>

function invalidate_from :: "QueryCacheContext \<Rightarrow> string \<Rightarrow> nat \<Rightarrow> QueryCacheContext" where
  "invalidate_from ctx table i =
     (if i < length (entries ctx) then
        (let entry = entries ctx ! i in
         if strstr (c_str (query entry @ [NUL])) (c_str table) \<noteq> None
         then invalidate_from (remove_cache_entry ctx i) table i
         else invalidate_from ctx table (Suc i))
      else ctx)"
  by pat_completeness auto
termination
  by (relation "measure (\<lambda>(ctx, table, i). length (entries ctx) - i)")
     (auto simp: remove_cache_entry_def Let_def)

declare invalidate_from.simps [simp del]

definition query_cache_invalidate ::
  "QueryCacheContext option \<Rightarrow> string \<Rightarrow> fault + (int \<times> QueryCacheContext)" where
  "query_cache_invalidate ctx table =
     (case ctx of
        None \<Rightarrow> Inl NullDereference
      | Some cache_ctx \<Rightarrow> Inr (0, invalidate_from cache_ctx table 0))"

function clear_from :: "QueryCacheContext \<Rightarrow> QueryCacheContext" where
  "clear_from ctx =
     (if entries ctx \<noteq> [] then clear_from (remove_cache_entry ctx 0) else ctx)"
  by pat_completeness auto
termination
  by (relation "measure (\<lambda>ctx. length (entries ctx))")
     (auto simp: remove_cache_entry_def Let_def)

declare clear_from.simps [simp del]

definition query_cache_clear :: "QueryCacheContext option \<Rightarrow> fault + (int \<times> QueryCacheContext)" where
  "query_cache_clear ctx =
     (case ctx of
        None \<Rightarrow> Inl NullDereference
      | Some cache_ctx \<Rightarrow> Inr (0, clear_from cache_ctx))"


section \<open>Sequences of calls\<close>

text \<open>
  A caller of the plugin: a list of calls made one after the other on the same context
  pointer, each given the clock value it observes and, for \<open>put\<close>, the number of
  allocations that succeed. \<open>run\<close> stops at the first fault and otherwise collects
  what each call returned.
\<close>

datatype call = Get string time_t | Put string string time_t nat | Invalidate string | Clear

datatype outcome = GetRet int "(string \<times> int) option" | Ret int

fun step :: "QueryCacheContext option \<Rightarrow> call \<Rightarrow> fault + (outcome \<times> QueryCacheContext option)" where
  "step ctx (Get qry now) =
     (case query_cache_get ctx qry now of
        Inl f \<Rightarrow> Inl f
      | Inr (status, out, ctx') \<Rightarrow> Inr (GetRet status out, Some ctx'))"
| "step ctx (Put qry res now mallocs) =
     (case query_cache_put ctx qry res now mallocs of
        Inl f \<Rightarrow> Inl f
      | Inr (status, ctx') \<Rightarrow> Inr (Ret status, ctx'))"
| "step ctx (Invalidate table) =
     (case query_cache_invalidate ctx table of
        Inl f \<Rightarrow> Inl f
      | Inr (status, ctx') \<Rightarrow> Inr (Ret status, Some ctx'))"
| "step ctx Clear =
     (case query_cache_clear ctx of
        Inl f \<Rightarrow> Inl f
      | Inr (status, ctx') \<Rightarrow> Inr (Ret status, Some ctx'))"

fun run :: "QueryCacheContext option \<Rightarrow> call list
    \<Rightarrow> fault + (outcome list \<times> QueryCacheContext option)" where
  "run ctx [] = Inr ([], ctx)"
| "run ctx (c # cs) =
     (case step ctx c of
        Inl f \<Rightarrow> Inl f
      | Inr (out, ctx') \<Rightarrow>
          (case run ctx' cs of
             Inl f \<Rightarrow> Inl f
           | Inr (outs, ctx'') \<Rightarrow> Inr (out # outs, ctx'')))"

text \<open>
  The lengths are passed as C \<open>int\<close>s and \<open>query_cache_put\<close> allocates
  \<open>query_len + 1\<close> and \<open>result_len + 1\<close> bytes, so a buffer a caller can pass has
  fewer than \<open>INT_MAX\<close> bytes.
\<close>

definition int_len :: "string \<Rightarrow> bool" where
  "int_len s = (length s < 2 ^ 31 - 1)"

fun valid_call :: "call \<Rightarrow> bool" where
  "valid_call (Put qry res now mallocs) = (int_len qry \<and> int_len res)"
| "valid_call _ = True"

text \<open>The contents of the context \<open>query_cache_create_context\<close> returns.\<close>

definition fresh :: QueryCacheContext where
  "fresh = \<lparr>entries = [], entry_count = 0, max_entries = DEFAULT_MAX_ENTRIES,
            max_size = DEFAULT_MAX_SIZE, current_size = 0, default_ttl = DEFAULT_TTL\<rparr>"

text \<open>The states a freshly created context can be brought into.\<close>

definition reachable :: "QueryCacheContext \<Rightarrow> bool" where
  "reachable c = (\<exists>calls outs. list_all valid_call calls \<and>
     run (query_cache_create_context True) calls = Inr (outs, Some c))"

section \<open>Bookkeeping invariant\<close>

text \<open>
  The size the cache accounts for an entry, and for a list of entries, as natural
  numbers.
\<close>

definition entry_size :: "CacheEntry \<Rightarrow> nat" where
  "entry_size e = length (query e) + length (result e) + 72"

definition total_size :: "CacheEntry list \<Rightarrow> nat" where
  "total_size es = sum_list (map entry_size es)"

definition entry_ok :: "CacheEntry \<Rightarrow> bool" where
  "entry_ok e = (query_len e = int (length (query e)) \<and> result_len e = int (length (result e))
     \<and> length (query e) < 2 ^ 31 \<and> length (result e) < 2 ^ 31)"

text \<open>
  \<open>cache_inv\<close>: the counters agree with the list, the list fits the size limit, and
  the size limit is below \<open>2^31\<close>, as the default is. Then the room test of
  \<open>add_cache_entry\<close> does not wrap around in \<open>size_t\<close>, and for every entry in the
  list \<open>query_len + result_len\<close> stays inside the range of a C \<open>int\<close>, where the
  model's \<open>int\<close> addition is the machine's.
\<close>

definition cache_inv :: "QueryCacheContext \<Rightarrow> bool" where
  "cache_inv c = (list_all entry_ok (entries c) \<and> entry_count c = int (length (entries c))
     \<and> current_size c = of_nat (total_size (entries c))
     \<and> total_size (entries c) \<le> unat (max_size c) \<and> unat (max_size c) < 2 ^ 31)"

text \<open>The context with the list replaced and the counters recomputed from it.\<close>

definition with_entries :: "QueryCacheContext \<Rightarrow> CacheEntry list \<Rightarrow> QueryCacheContext" where
  "with_entries c es = c\<lparr>entries := es, entry_count := int (length es),
     current_size := of_nat (total_size es)\<rparr>"

text \<open>Both limits admit entry \<open>e\<close> next to the entries \<open>es\<close>.\<close>

definition fits :: "QueryCacheContext \<Rightarrow> CacheEntry list \<Rightarrow> CacheEntry \<Rightarrow> bool" where
  "fits c es e = (int (length es) < max_entries c \<and> total_size es + entry_size e \<le> unat (max_size c))"

text \<open>The entry \<open>query_cache_put\<close> builds.\<close>

definition new_entry :: "string \<Rightarrow> string \<Rightarrow> time_t \<Rightarrow> CacheEntry" where
  "new_entry qry res now =
     \<lparr>query = qry, query_len = int (length qry), result = res, result_len = int (length res),
      created_time = now, last_access_time = now, access_count = 1\<rparr>"

text \<open>The expiry test of the lookup, and what a hit does to the entry.\<close>

definition expired :: "QueryCacheContext \<Rightarrow> time_t \<Rightarrow> CacheEntry \<Rightarrow> bool" where
  "expired c now e = (now - created_time e > default_ttl c)"

definition touch :: "time_t \<Rightarrow> CacheEntry \<Rightarrow> CacheEntry" where
  "touch now e = e\<lparr>last_access_time := now, access_count := access_count e + 1\<rparr>"

text \<open>
  The lookup scan as a function of the part of the list the cursor has not passed: the
  unexpired entries it steps over, and the hit with the entries behind it.
\<close>

fun scan_entries :: "QueryCacheContext \<Rightarrow> time_t \<Rightarrow> string \<Rightarrow> CacheEntry list
    \<Rightarrow> CacheEntry list \<times> (CacheEntry \<times> CacheEntry list) option" where
  "scan_entries c now qry [] = ([], None)"
| "scan_entries c now qry (e # es) =
     (if expired c now e then scan_entries c now qry es
      else if query e = qry then ([], Some (e, es))
      else (case scan_entries c now qry es of (kept, r) \<Rightarrow> (e # kept, r)))"

text \<open>The test of the invalidation scan on one entry.\<close>

definition mentions :: "string \<Rightarrow> CacheEntry \<Rightarrow> bool" where
  "mentions table e = (strstr (c_str (query e @ [NUL])) (c_str table) \<noteq> None)"

section \<open>Properties of the list operations\<close>

lemma entry_bytes_word:
  "entry_ok e \<Longrightarrow> (of_int (query_len e + result_len e) + sizeof_CacheEntry :: size_t) = of_nat (entry_size e)"
  by (simp add: entry_ok_def entry_size_def sizeof_CacheEntry_def)

lemma total_size_simps [simp]:
  "total_size [] = 0"
  "total_size (e # es) = entry_size e + total_size es"
  "total_size (xs @ ys) = total_size xs + total_size ys"
  by (simp_all add: total_size_def)

lemma total_size_remove:
  assumes "i < length es"
  shows "total_size (take i es @ drop (Suc i) es) + entry_size (es ! i) = total_size es"
proof -
  have "es = take i es @ es ! i # drop (Suc i) es"
    using assms by (rule id_take_nth_drop)
  then have "total_size es = total_size (take i es @ es ! i # drop (Suc i) es)"
    by simp
  then show ?thesis by simp
qed

lemma inv_with_entries_self: "cache_inv c \<Longrightarrow> with_entries c (entries c) = c"
  by (simp add: cache_inv_def with_entries_def)

lemma with_entries_fields [simp]:
  "entries (with_entries c es) = es"
  "entry_count (with_entries c es) = int (length es)"
  "current_size (with_entries c es) = of_nat (total_size es)"
  "max_entries (with_entries c es) = max_entries c"
  "max_size (with_entries c es) = max_size c"
  "default_ttl (with_entries c es) = default_ttl c"
  "with_entries (with_entries c es) es' = with_entries c es'"
  by (simp_all add: with_entries_def)

lemma inv_with_entries:
  "cache_inv (with_entries c es) \<longleftrightarrow>
     list_all entry_ok es \<and> total_size es \<le> unat (max_size c) \<and> unat (max_size c) < 2 ^ 31"
  by (auto simp: cache_inv_def)

lemma remove_cache_entry_inv:
  assumes "cache_inv c" and "i < length (entries c)"
  shows "remove_cache_entry c i = with_entries c (take i (entries c) @ drop (Suc i) (entries c))"
proof -
  let ?es = "entries c"
  let ?e = "?es ! i"
  have ok: "entry_ok ?e"
    using assms by (simp add: cache_inv_def list_all_length)
  have sz: "total_size (take i ?es @ drop (Suc i) ?es) + entry_size ?e = total_size ?es"
    using assms(2) by (rule total_size_remove)
  have "current_size c - (of_int (query_len ?e + result_len ?e) + sizeof_CacheEntry)
        = (of_nat (total_size ?es) :: size_t) - of_nat (entry_size ?e)"
    unfolding entry_bytes_word[OF ok] using assms(1) by (simp add: cache_inv_def)
  also have "\<dots> = of_nat (total_size (take i ?es @ drop (Suc i) ?es))"
    using sz by (metis add_diff_cancel_right' of_nat_add)
  finally have cs: "current_size c - (of_int (query_len ?e + result_len ?e) + sizeof_CacheEntry)
        = of_nat (total_size (take i ?es @ drop (Suc i) ?es))" .
  have len: "int (length (take i ?es @ drop (Suc i) ?es)) = entry_count c - 1"
    using assms by (simp add: cache_inv_def)
  show ?thesis
    unfolding remove_cache_entry_def Let_def with_entries_def cs len[symmetric]
    by simp
qed

lemma inv_remove:
  assumes "cache_inv c" and "i < length (entries c)"
  shows "cache_inv (remove_cache_entry c i)"
proof -
  let ?es = "entries c"
  have "total_size (take i ?es @ drop (Suc i) ?es) \<le> total_size ?es"
    using total_size_remove[OF assms(2)] by linarith
  moreover have "list_all entry_ok (take i ?es @ drop (Suc i) ?es)"
    using assms(1) by (auto simp: cache_inv_def list_all_iff dest: in_set_takeD in_set_dropD)
  ultimately show ?thesis
    using assms by (simp add: remove_cache_entry_inv inv_with_entries) (simp add: cache_inv_def)
qed

lemma entry_size_bound: "entry_ok e \<Longrightarrow> entry_size e < 2 ^ 33"
  by (simp add: entry_ok_def entry_size_def)

lemma room_test_inv:
  assumes "cache_inv c" and "entry_ok e"
  shows "(entry_count c \<ge> max_entries c \<or>
          current_size c + of_int (query_len e) + of_int (result_len e) + sizeof_CacheEntry
            > max_size c) \<longleftrightarrow> \<not> fits c (entries c) e"
proof -
  let ?t = "total_size (entries c)"
  have w: "current_size c + of_int (query_len e) + of_int (result_len e) + sizeof_CacheEntry
           = (of_nat (?t + entry_size e) :: size_t)"
    using assms by (simp add: cache_inv_def entry_ok_def entry_size_def sizeof_CacheEntry_def)
  have "?t + entry_size e < 2 ^ 64"
    using assms(1) entry_size_bound[OF assms(2)] by (simp add: cache_inv_def)
  then have u: "unat (of_nat (?t + entry_size e) :: size_t) = ?t + entry_size e"
    unfolding unat_of_nat by simp
  show ?thesis
    unfolding w word_less_nat_alt u fits_def using assms(1) by (auto simp: cache_inv_def)
qed

lemma add_cache_entry_fits:
  assumes "cache_inv c" and "entry_ok e" and "fits c (entries c) e"
  shows "add_cache_entry c e = with_entries c (e # entries c)"
proof -
  have "add_cache_entry c e = c\<lparr>entries := e # entries c,
               entry_count := entry_count c + 1,
               current_size := current_size c +
                 (of_int (query_len e + result_len e) + sizeof_CacheEntry)\<rparr>"
    using room_test_inv[OF assms(1,2)] assms(3)
    by (subst add_cache_entry.simps) simp
  also have "\<dots> = with_entries c (e # entries c)"
    unfolding entry_bytes_word[OF assms(2)] using assms(1)
    by (simp add: cache_inv_def with_entries_def add.commute)
  finally show ?thesis .
qed

lemma add_cache_entry_evict:
  assumes "cache_inv c" and "entry_ok e" and "\<not> fits c (entries c) e" and "entries c \<noteq> []"
  shows "add_cache_entry c e = add_cache_entry (with_entries c (butlast (entries c))) e"
proof -
  have i: "length (entries c) - 1 < length (entries c)"
    using assms(4) by simp
  have "take (length (entries c) - 1) (entries c) @ drop (Suc (length (entries c) - 1)) (entries c)
        = butlast (entries c)"
    using assms(4) by (simp add: butlast_conv_take)
  then have "remove_cache_entry c (length (entries c) - 1) = with_entries c (butlast (entries c))"
    using remove_cache_entry_inv[OF assms(1) i] by simp
  then show ?thesis
    using room_test_inv[OF assms(1,2)] assms(3,4)
    by (subst add_cache_entry.simps) simp
qed

lemma add_cache_entry_drop:
  assumes "cache_inv c" and "entry_ok e" and "\<not> fits c (entries c) e" and "entries c = []"
  shows "add_cache_entry c e = c"
  using room_test_inv[OF assms(1,2)] assms(3,4)
  by (subst add_cache_entry.simps) simp

lemma inv_butlast: "cache_inv c \<Longrightarrow> cache_inv (with_entries c (butlast (entries c)))"
proof -
  assume w: "cache_inv c"
  have "total_size (butlast (entries c)) \<le> total_size (entries c)"
    by (cases "entries c" rule: rev_cases) simp_all
  moreover have "list_all entry_ok (butlast (entries c))"
    using w by (auto simp: cache_inv_def list_all_iff dest: in_set_butlastD)
  ultimately show ?thesis using w by (simp add: inv_with_entries) (simp add: cache_inv_def)
qed

lemma fits_with_entries [simp]: "fits (with_entries c es') es e = fits c es e"
  by (simp add: fits_def)

lemma add_cache_entry_char:
  "cache_inv c \<Longrightarrow> entry_ok e \<Longrightarrow>
   \<exists>k\<le>length (entries c).
      (\<forall>j. k < j \<and> j \<le> length (entries c) \<longrightarrow> \<not> fits c (take j (entries c)) e) \<and>
      (if fits c (take k (entries c)) e
       then add_cache_entry c e = with_entries c (e # take k (entries c))
       else k = 0 \<and> add_cache_entry c e = with_entries c [])"
proof (induction "length (entries c)" arbitrary: c)
  case 0
  then have e: "entries c = []" by simp
  show ?case
  proof (cases "fits c (entries c) e")
    case True
    then show ?thesis using add_cache_entry_fits[OF "0.prems" True] e by auto
  next
    case False
    then show ?thesis
      using add_cache_entry_drop[OF "0.prems" False e] e inv_with_entries_self[OF "0.prems"(1)]
      by auto
  qed
next
  case (Suc n)
  let ?es = "entries c"
  have ne: "?es \<noteq> []" using Suc.hyps(2) by auto
  show ?case
  proof (cases "fits c ?es e")
    case True
    have "\<forall>j. length ?es < j \<and> j \<le> length ?es \<longrightarrow> \<not> fits c (take j ?es) e" by auto
    moreover have "fits c (take (length ?es) ?es) e" using True by simp
    moreover have "add_cache_entry c e = with_entries c (e # take (length ?es) ?es)"
      using add_cache_entry_fits[OF Suc.prems True] by simp
    ultimately show ?thesis by (intro exI[of _ "length ?es"]) simp
  next
    case False
    let ?c' = "with_entries c (butlast ?es)"
    have len: "n = length (entries ?c')" using Suc.hyps(2) by simp
    from Suc.hyps(1)[OF len inv_butlast[OF Suc.prems(1)] Suc.prems(2)]
    obtain k where k: "k \<le> length (butlast ?es)"
      and above: "\<forall>j. k < j \<and> j \<le> length (butlast ?es) \<longrightarrow> \<not> fits c (take j (butlast ?es)) e"
      and res: "if fits c (take k (butlast ?es)) e
                then add_cache_entry ?c' e = with_entries c (e # take k (butlast ?es))
                else k = 0 \<and> add_cache_entry ?c' e = with_entries c []"
      by auto
    have tk: "\<And>j. j \<le> length (butlast ?es) \<Longrightarrow> take j (butlast ?es) = take j ?es"
      by (auto simp: butlast_conv_take min_def split: if_splits)
    have step: "add_cache_entry c e = add_cache_entry ?c' e"
      by (rule add_cache_entry_evict[OF Suc.prems False ne])
    have "\<forall>j. k < j \<and> j \<le> length ?es \<longrightarrow> \<not> fits c (take j ?es) e"
    proof (intro allI impI)
      fix j assume j: "k < j \<and> j \<le> length ?es"
      show "\<not> fits c (take j ?es) e"
      proof (cases "j = length ?es")
        case True then show ?thesis using False by simp
      next
        case False
        then have "j \<le> length (butlast ?es)" using j by auto
        then show ?thesis using above j tk by auto
      qed
    qed
    moreover have "k \<le> length ?es" using k by simp
    moreover have "if fits c (take k ?es) e
       then add_cache_entry c e = with_entries c (e # take k ?es)
       else k = 0 \<and> add_cache_entry c e = with_entries c []"
      using res step tk[OF k] by simp
    ultimately show ?thesis by blast
  qed
qed

lemma expired_with_entries [simp]: "expired (with_entries c es) now e = expired c now e"
  by (simp add: expired_def)

lemma touch_fields [simp]:
  "query (touch now e) = query e" "result (touch now e) = result e"
  "query_len (touch now e) = query_len e" "result_len (touch now e) = result_len e"
  "created_time (touch now e) = created_time e"
  "entry_size (touch now e) = entry_size e"
  "entry_ok (touch now e) = entry_ok e"
  by (simp_all add: touch_def entry_size_def entry_ok_def)

lemma key_test:
  assumes "entry_ok e"
  shows "(query_len e = int (length qry) \<and> memcmp_eq (query e) qry (length qry)) \<longleftrightarrow> query e = qry"
  using assms by (auto simp: entry_ok_def memcmp_eq_def)

lemma inv_nth_ok: "cache_inv c \<Longrightarrow> i < length (entries c) \<Longrightarrow> entry_ok (entries c ! i)"
  by (simp add: cache_inv_def list_all_length)

lemma find_from_end:
  "\<not> i < length (entries c) \<Longrightarrow> find_cache_entry_from c qry now i = (c, None)"
  by (subst find_cache_entry_from.simps) simp

lemma find_from_expired:
  assumes "cache_inv c" "i < length (entries c)" "expired c now (entries c ! i)"
  shows "find_cache_entry_from c qry now i =
         find_cache_entry_from (with_entries c (take i (entries c) @ drop (Suc i) (entries c))) qry now i"
  using assms(2,3) remove_cache_entry_inv[OF assms(1,2)]
  by (subst find_cache_entry_from.simps) (simp add: expired_def Let_def)

lemma find_from_skip:
  assumes "cache_inv c" "i < length (entries c)" "\<not> expired c now (entries c ! i)"
    "query (entries c ! i) \<noteq> qry"
  shows "find_cache_entry_from c qry now i = find_cache_entry_from c qry now (Suc i)"
  using assms(2,3,4) key_test[OF inv_nth_ok[OF assms(1,2)], of qry]
  by (subst find_cache_entry_from.simps) (auto simp: expired_def Let_def)

lemma find_from_hit:
  assumes "cache_inv c" "i < length (entries c)" "\<not> expired c now (entries c ! i)"
    "query (entries c ! i) = qry"
  shows "find_cache_entry_from c qry now i =
     (with_entries c (touch now (entries c ! i) # take i (entries c) @ drop (Suc i) (entries c)),
      Some (touch now (entries c ! i)))"
proof -
  let ?es = "entries c"
  let ?m = "touch now (?es ! i)"
  have sz: "total_size (?m # take i ?es @ drop (Suc i) ?es) = total_size ?es"
    using total_size_remove[OF assms(2)] by simp
  have len: "int (length (?m # take i ?es @ drop (Suc i) ?es)) = entry_count c"
    using assms(1,2) by (simp add: cache_inv_def)
  have cs: "current_size c = of_nat (total_size (?m # take i ?es @ drop (Suc i) ?es))"
    using assms(1) unfolding sz by (simp add: cache_inv_def)
  have moved: "c\<lparr>entries := ?m # take i ?es @ drop (Suc i) ?es\<rparr>
        = with_entries c (?m # take i ?es @ drop (Suc i) ?es)"
    unfolding with_entries_def len cs[symmetric] by simp
  have head: "i = 0 \<Longrightarrow> ?es[i := ?m] = ?m # take i ?es @ drop (Suc i) ?es"
    using assms(2) by (cases ?es) simp_all
  have "find_cache_entry_from c qry now i =
        (if i \<noteq> 0 then c\<lparr>entries := ?m # take i ?es @ drop (Suc i) ?es\<rparr>
         else c\<lparr>entries := ?es[i := ?m]\<rparr>, Some ?m)"
    using assms(2,3,4) key_test[OF inv_nth_ok[OF assms(1,2)], of qry]
    by (subst find_cache_entry_from.simps) (simp add: expired_def Let_def touch_def)
  also have "\<dots> = (with_entries c (?m # take i ?es @ drop (Suc i) ?es), Some ?m)"
    using moved head by auto
  finally show ?thesis .
qed

lemma scan_with_entries [simp]: "scan_entries (with_entries c es') now qry es = scan_entries c now qry es"
  by (induction es) simp_all

lemma inv_remove': "cache_inv c \<Longrightarrow> i < length (entries c) \<Longrightarrow>
   cache_inv (with_entries c (take i (entries c) @ drop (Suc i) (entries c)))"
  using inv_remove remove_cache_entry_inv by metis

lemma find_from_scan:
  "cache_inv c \<Longrightarrow> i \<le> length (entries c) \<Longrightarrow>
   find_cache_entry_from c qry now i =
     (case scan_entries c now qry (drop i (entries c)) of
        (kept, None) \<Rightarrow> (with_entries c (take i (entries c) @ kept), None)
      | (kept, Some (m, post)) \<Rightarrow>
          (with_entries c (touch now m # take i (entries c) @ kept @ post), Some (touch now m)))"
proof (induction c qry now i rule: find_cache_entry_from.induct)
  case (1 ctx qry now i)
  let ?es = "entries ctx"
  show ?case
  proof (cases "i < length ?es")
    case False
    then have "drop i ?es = []" "take i ?es = ?es" by simp_all
    then show ?thesis
      using find_from_end[OF False] inv_with_entries_self[OF "1.prems"(1)] by simp
  next
    case True
    then have dr: "drop i ?es = ?es ! i # drop (Suc i) ?es"
      by (simp add: Cons_nth_drop_Suc)
    show ?thesis
    proof (cases "expired ctx now (?es ! i)")
      case exp: True
      let ?c1 = "with_entries ctx (take i ?es @ drop (Suc i) ?es)"
      have r: "remove_cache_entry ctx i = ?c1"
        by (rule remove_cache_entry_inv[OF "1.prems"(1) True])
      have i1: "i \<le> length (entries ?c1)" using True by simp
      have tk: "take i (entries ?c1) = take i ?es" "drop i (entries ?c1) = drop (Suc i) ?es"
        using True by simp_all
      have "find_cache_entry_from ctx qry now i = find_cache_entry_from ?c1 qry now i"
        by (rule find_from_expired[OF "1.prems"(1) True exp])
      also have "\<dots> = (case scan_entries ?c1 now qry (drop i (entries ?c1)) of
            (kept, None) \<Rightarrow> (with_entries ?c1 (take i (entries ?c1) @ kept), None)
          | (kept, Some (m, post)) \<Rightarrow>
              (with_entries ?c1 (touch now m # take i (entries ?c1) @ kept @ post),
               Some (touch now m)))"
      proof -
        have e': "default_ttl ctx < now - created_time (?es ! i)"
          using exp by (simp add: expired_def)
        have w': "cache_inv (remove_cache_entry ctx i)"
          by (rule inv_remove[OF "1.prems"(1) True])
        have i': "i \<le> length (entries (remove_cache_entry ctx i))"
          unfolding r using i1 .
        show ?thesis
          using "1.IH"(1)[OF True refl e' w' i'] unfolding r .
      qed
      finally show ?thesis
        unfolding tk dr using exp by (simp split: prod.splits option.splits)
    next
      case live: False
      show ?thesis
      proof (cases "query (?es ! i) = qry")
        case True
        show ?thesis
          using find_from_hit[OF "1.prems"(1) \<open>i < length ?es\<close> live True] live True
          unfolding dr by simp
      next
        case nomatch: False
        have tk: "take (Suc i) ?es = take i ?es @ [?es ! i]"
          using True by (simp add: take_Suc_conv_app_nth)
        have k: "\<not> (query_len (?es ! i) = int (length qry) \<and>
                   memcmp_eq (query (?es ! i)) qry (length qry))"
          using key_test[OF inv_nth_ok[OF "1.prems"(1) True], of qry] nomatch by simp
        have "find_cache_entry_from ctx qry now i = find_cache_entry_from ctx qry now (Suc i)"
          by (rule find_from_skip[OF "1.prems"(1) True live nomatch])
        also have "\<dots> = (case scan_entries ctx now qry (drop (Suc i) ?es) of
            (kept, None) \<Rightarrow> (with_entries ctx (take (Suc i) ?es @ kept), None)
          | (kept, Some (m, post)) \<Rightarrow>
              (with_entries ctx (touch now m # take (Suc i) ?es @ kept @ post),
               Some (touch now m)))"
        proof -
          have l': "\<not> default_ttl ctx < now - created_time (?es ! i)"
            using live by (simp add: expired_def)
          have i': "Suc i \<le> length ?es" using True by simp
          show ?thesis
            by (rule "1.IH"(2)[OF True refl l' k "1.prems"(1) i'])
        qed
        finally show ?thesis
          unfolding tk dr using live nomatch by (simp split: prod.splits option.splits)
      qed
    qed
  qed
qed

lemma strstr_sublist: "strstr h n \<noteq> None \<longleftrightarrow> sublist n h"
proof (induction h)
  case Nil
  then show ?case by simp
next
  case (Cons c cs)
  have "take (length n) (c # cs) = n \<longleftrightarrow> prefix n (c # cs)"
    by (metis append_take_drop_id prefix_def append_eq_conv_conj)
  then show ?case using Cons by (simp add: sublist_Cons_right)
qed

lemma c_str_terminated: "c_str (s @ [NUL]) = takeWhile (\<lambda>c. c \<noteq> NUL) s"
  by (induction s) (simp_all add: c_str_def)

lemma c_str_text: "NUL \<notin> set s \<Longrightarrow> c_str s = s"
  by (auto simp: c_str_def)

lemma c_str_terminated_text: "NUL \<notin> set s \<Longrightarrow> c_str (s @ [NUL]) = s"
  by (auto simp: c_str_terminated)

lemma c_str_prefix: "prefix (c_str (s @ [NUL])) s"
  unfolding c_str_terminated by (metis takeWhile_dropWhile_id prefixI)

lemma entries_remove [simp]:
  "entries (remove_cache_entry c i) = take i (entries c) @ drop (Suc i) (entries c)"
  by (simp add: remove_cache_entry_def Let_def)

lemma config_remove [simp]:
  "max_entries (remove_cache_entry c i) = max_entries c"
  "max_size (remove_cache_entry c i) = max_size c"
  "default_ttl (remove_cache_entry c i) = default_ttl c"
  by (simp_all add: remove_cache_entry_def Let_def)

lemma invalidate_from_entries:
  "i \<le> length (entries c) \<Longrightarrow>
   entries (invalidate_from c table i) =
     take i (entries c) @ filter (\<lambda>e. \<not> mentions table e) (drop i (entries c))"
proof (induction c table i rule: invalidate_from.induct)
  case (1 ctx table i)
  let ?es = "entries ctx"
  show ?case
  proof (cases "i < length ?es")
    case False
    then show ?thesis by (subst invalidate_from.simps) simp
  next
    case True
    then have dr: "drop i ?es = ?es ! i # drop (Suc i) ?es"
      by (simp add: Cons_nth_drop_Suc)
    show ?thesis
    proof (cases "mentions table (?es ! i)")
      case m: True
      then have m': "strstr (c_str (query (?es ! i) @ [NUL])) (c_str table) \<noteq> None"
        by (simp add: mentions_def)
      have i': "i \<le> length (entries (remove_cache_entry ctx i))" using True by simp
      have "entries (invalidate_from ctx table i) =
            entries (invalidate_from (remove_cache_entry ctx i) table i)"
        using True m' by (subst invalidate_from.simps) (simp add: Let_def)
      also have "\<dots> = take i ?es @ filter (\<lambda>e. \<not> mentions table e) (drop (Suc i) ?es)"
        using "1.IH"(1)[OF True refl m' i'] True by simp
      finally show ?thesis unfolding dr using m by simp
    next
      case m: False
      then have m': "\<not> strstr (c_str (query (?es ! i) @ [NUL])) (c_str table) \<noteq> None"
        by (simp add: mentions_def)
      have i': "Suc i \<le> length ?es" using True by simp
      have "entries (invalidate_from ctx table i) = entries (invalidate_from ctx table (Suc i))"
        using True m' by (subst invalidate_from.simps) (simp add: Let_def)
      also have "\<dots> = take (Suc i) ?es @ filter (\<lambda>e. \<not> mentions table e) (drop (Suc i) ?es)"
        using "1.IH"(2)[OF True refl m' i'] .
      finally show ?thesis
        unfolding dr using m True by (simp add: take_Suc_conv_app_nth)
    qed
  qed
qed

lemma invalidate_from_inv:
  "cache_inv c \<Longrightarrow> cache_inv (invalidate_from c table i) \<and>
     max_entries (invalidate_from c table i) = max_entries c \<and>
     max_size (invalidate_from c table i) = max_size c \<and>
     default_ttl (invalidate_from c table i) = default_ttl c"
proof (induction c table i rule: invalidate_from.induct)
  case (1 ctx table i)
  show ?case
  proof (cases "i < length (entries ctx)")
    case False
    then show ?thesis using "1.prems" by (subst (1 2 3 4) invalidate_from.simps) simp
  next
    case True
    show ?thesis
    proof (cases "strstr (c_str (query (entries ctx ! i) @ [NUL])) (c_str table) \<noteq> None")
      case m: True
      have eq: "invalidate_from ctx table i = invalidate_from (remove_cache_entry ctx i) table i"
        using True m by (subst invalidate_from.simps) (simp add: Let_def)
      show ?thesis
        unfolding eq using "1.IH"(1)[OF True refl m inv_remove[OF "1.prems" True]] by simp
    next
      case m: False
      have eq: "invalidate_from ctx table i = invalidate_from ctx table (Suc i)"
        using True m by (subst invalidate_from.simps) (simp add: Let_def)
      show ?thesis
        unfolding eq using "1.IH"(2)[OF True refl m "1.prems"] .
    qed
  qed
qed

lemma clear_from_inv:
  "cache_inv c \<Longrightarrow> clear_from c = with_entries c []"
proof (induction c rule: clear_from.induct)
  case (1 ctx)
  show ?case
  proof (cases "entries ctx = []")
    case True
    then show ?thesis
      using inv_with_entries_self[OF "1.prems"] by (subst clear_from.simps) simp
  next
    case False
    then have i: "0 < length (entries ctx)" by simp
    have "clear_from ctx = clear_from (remove_cache_entry ctx 0)"
      using False by (subst clear_from.simps) simp
    also have "\<dots> = with_entries (remove_cache_entry ctx 0) []"
      by (rule "1.IH"[OF False inv_remove[OF "1.prems" i]])
    also have "\<dots> = with_entries ctx []"
      unfolding remove_cache_entry_inv[OF "1.prems" i] by simp
    finally show ?thesis .
  qed
qed

lemma scan_miss:
  "scan_entries c now qry es = (kept, None) \<Longrightarrow>
     kept = filter (\<lambda>e. \<not> expired c now e) es \<and> (\<forall>e\<in>set es. expired c now e \<or> query e \<noteq> qry)"
  by (induction es arbitrary: kept) (auto split: if_splits prod.splits)

lemma scan_hit:
  "scan_entries c now qry es = (kept, Some (m, post)) \<Longrightarrow>
     \<exists>pre. es = pre @ m # post \<and> kept = filter (\<lambda>e. \<not> expired c now e) pre \<and>
       (\<forall>e\<in>set pre. expired c now e \<or> query e \<noteq> qry) \<and> \<not> expired c now m \<and> query m = qry"
proof (induction es arbitrary: kept)
  case Nil
  then show ?case by simp
next
  case (Cons e es)
  show ?case
  proof (cases "expired c now e")
    case True
    with Cons.prems have "scan_entries c now qry es = (kept, Some (m, post))" by simp
    from Cons.IH[OF this] obtain pre where
      "es = pre @ m # post" "kept = filter (\<lambda>e. \<not> expired c now e) pre"
      "\<forall>e\<in>set pre. expired c now e \<or> query e \<noteq> qry" "\<not> expired c now m" "query m = qry"
      by blast
    then show ?thesis using True by (intro exI[of _ "e # pre"]) simp
  next
    case live: False
    show ?thesis
    proof (cases "query e = qry")
      case True
      with live Cons.prems show ?thesis by (intro exI[of _ "[]"]) simp
    next
      case False
      with live Cons.prems obtain kept' where
        k: "scan_entries c now qry es = (kept', Some (m, post))" "kept = e # kept'"
        by (auto split: prod.splits)
      from Cons.IH[OF k(1)] obtain pre where
        "es = pre @ m # post" "kept' = filter (\<lambda>e. \<not> expired c now e) pre"
        "\<forall>e\<in>set pre. expired c now e \<or> query e \<noteq> qry" "\<not> expired c now m" "query m = qry"
        by blast
      then show ?thesis using live False k(2) by (intro exI[of _ "e # pre"]) simp
    qed
  qed
qed

lemma total_size_filter: "total_size (filter P es) \<le> total_size es"
  by (induction es) simp_all

lemma inv_sub:
  assumes "cache_inv c" and "set es \<subseteq> set (entries c)" and "total_size es \<le> total_size (entries c)"
  shows "cache_inv (with_entries c es)"
  using assms unfolding inv_with_entries by (auto simp: cache_inv_def list_all_iff)

lemma new_entry_ok: "int_len qry \<Longrightarrow> int_len res \<Longrightarrow> entry_ok (new_entry qry res now)"
  by (simp add: entry_ok_def new_entry_def int_len_def)

lemma new_entry_fields [simp]:
  "query (new_entry qry res now) = qry" "result (new_entry qry res now) = res"
  "result_len (new_entry qry res now) = int (length res)"
  "created_time (new_entry qry res now) = now"
  "entry_size (new_entry qry res now) = length qry + length res + 72"
  by (simp_all add: new_entry_def entry_size_def)

lemma get_char:
  assumes "cache_inv c"
  shows "query_cache_get (Some c) qry now =
     (case scan_entries c now qry (entries c) of
        (kept, None) \<Rightarrow> Inr (1, None, with_entries c kept)
      | (kept, Some (m, post)) \<Rightarrow>
          Inr (0, Some (result m, result_len m), with_entries c (touch now m # kept @ post)))"
  using find_from_scan[OF assms, of 0 qry now]
  by (simp add: query_cache_get_def find_cache_entry_def split: prod.splits option.splits)

lemma put_failed: "mallocs < 3 \<Longrightarrow> query_cache_put ctx qry res now mallocs = Inr (1, ctx)"
  by (simp add: query_cache_put_def)

lemma put_ok:
  "3 \<le> mallocs \<Longrightarrow> query_cache_put (Some c) qry res now mallocs =
     Inr (0, Some (add_cache_entry c (new_entry qry res now)))"
  by (simp add: query_cache_put_def new_entry_def)

lemma put_char:
  assumes "cache_inv c" "int_len qry" "int_len res" "3 \<le> mallocs"
  shows "\<exists>k\<le>length (entries c).
      (\<forall>j. k < j \<and> j \<le> length (entries c) \<longrightarrow> \<not> fits c (take j (entries c)) (new_entry qry res now)) \<and>
      (if fits c (take k (entries c)) (new_entry qry res now)
       then query_cache_put (Some c) qry res now mallocs =
              Inr (0, Some (with_entries c (new_entry qry res now # take k (entries c))))
       else k = 0 \<and> query_cache_put (Some c) qry res now mallocs = Inr (0, Some (with_entries c [])))"
proof -
  from add_cache_entry_char[OF assms(1) new_entry_ok[OF assms(2,3)], of now]
  obtain k where "k \<le> length (entries c)"
    "\<forall>j. k < j \<and> j \<le> length (entries c) \<longrightarrow> \<not> fits c (take j (entries c)) (new_entry qry res now)"
    "if fits c (take k (entries c)) (new_entry qry res now)
     then add_cache_entry c (new_entry qry res now) =
            with_entries c (new_entry qry res now # take k (entries c))
     else k = 0 \<and> add_cache_entry c (new_entry qry res now) = with_entries c []"
    by blast
  then show ?thesis
    unfolding put_ok[OF assms(4)] by (intro exI[of _ k]) (simp split: if_splits)
qed

lemma inv_add:
  assumes "cache_inv c" "entry_ok e"
  shows "\<exists>es. add_cache_entry c e = with_entries c es \<and> cache_inv (with_entries c es) \<and>
     (int (length (entries c)) \<le> max_entries c \<longrightarrow> int (length es) \<le> max_entries c)"
proof -
  from add_cache_entry_char[OF assms] obtain k where k: "k \<le> length (entries c)"
    and r: "if fits c (take k (entries c)) e
       then add_cache_entry c e = with_entries c (e # take k (entries c))
       else k = 0 \<and> add_cache_entry c e = with_entries c []"
    by blast
  show ?thesis
  proof (cases "fits c (take k (entries c)) e")
    case True
    have "list_all entry_ok (take k (entries c))"
      using assms(1) by (auto simp: cache_inv_def list_all_iff dest: in_set_takeD)
    then have "cache_inv (with_entries c (e # take k (entries c)))"
      using True assms unfolding inv_with_entries
      by (simp add: fits_def cache_inv_def add.commute)
    moreover have "int (length (e # take k (entries c))) \<le> max_entries c"
      using True by (simp add: fits_def)
    ultimately show ?thesis using r True by auto
  next
    case False
    have "cache_inv (with_entries c [])"
      using assms(1) unfolding inv_with_entries by (simp add: cache_inv_def)
    then show ?thesis using r False by auto
  qed
qed

lemma step_inv:
  assumes "cache_inv c" "valid_call cl"
  shows "\<exists>out es. step (Some c) cl = Inr (out, Some (with_entries c es)) \<and>
     cache_inv (with_entries c es) \<and>
     (int (length (entries c)) \<le> max_entries c \<longrightarrow> int (length es) \<le> max_entries c)"
proof (cases cl)
  case (Get qry now)
  obtain kept r where s: "scan_entries c now qry (entries c) = (kept, r)"
    by (cases "scan_entries c now qry (entries c)")
  show ?thesis
  proof (cases r)
    case None
    from scan_miss[OF s[unfolded None]] have k: "kept = filter (\<lambda>e. \<not> expired c now e) (entries c)"
      by simp
    have "cache_inv (with_entries c kept)"
      unfolding k by (rule inv_sub[OF assms(1)]) (auto simp: total_size_filter)
    moreover have "length kept \<le> length (entries c)" unfolding k by simp
    ultimately show ?thesis
      using Get s None by (auto simp: get_char[OF assms(1)])
  next
    case (Some mp)
    obtain m post where mp: "mp = (m, post)" by (cases mp)
    from scan_hit[OF s[unfolded Some mp]] obtain pre where
      p: "entries c = pre @ m # post" "kept = filter (\<lambda>e. \<not> expired c now e) pre"
      by blast
    have mok: "entry_ok m" using assms(1) p(1) by (simp add: cache_inv_def)
    have ts: "total_size (touch now m # kept @ post) \<le> total_size (entries c)"
      unfolding p using total_size_filter[of "\<lambda>e. \<not> expired c now e" pre] by simp
    have "list_all entry_ok (touch now m # kept @ post)"
      using assms(1) mok by (auto simp: cache_inv_def list_all_iff p)
    then have "cache_inv (with_entries c (touch now m # kept @ post))"
      using ts assms(1) unfolding inv_with_entries by (simp add: cache_inv_def)
    moreover have "length (touch now m # kept @ post) \<le> length (entries c)"
      unfolding p by (simp add: le_imp_less_Suc)
    ultimately show ?thesis
      using Get s Some mp by (auto simp: get_char[OF assms(1)])
  qed
next
  case (Put qry res now mallocs)
  show ?thesis
  proof (cases "3 \<le> mallocs")
    case True
    have ok: "entry_ok (new_entry qry res now)"
      using assms(2) Put by (simp add: new_entry_ok)
    from inv_add[OF assms(1) ok] show ?thesis
      using Put True by (auto simp: put_ok)
  next
    case False
    then have "query_cache_put (Some c) qry res now mallocs = Inr (1, Some c)"
      by (simp add: put_failed)
    then show ?thesis
      using Put assms(1) inv_with_entries_self[OF assms(1)]
      by (intro exI[of _ "Ret 1"] exI[of _ "entries c"]) simp
  qed
next
  case (Invalidate table)
  let ?c' = "invalidate_from c table 0"
  have i: "cache_inv ?c'" "max_entries ?c' = max_entries c" "max_size ?c' = max_size c"
    "default_ttl ?c' = default_ttl c"
    using invalidate_from_inv[OF assms(1), of table 0] by simp_all
  have e: "entries ?c' = filter (\<lambda>e. \<not> mentions table e) (entries c)"
    using invalidate_from_entries[of 0 c table] by simp
  have eq: "?c' = with_entries c (entries ?c')"
    using i by (simp add: cache_inv_def with_entries_def)
  have "length (entries ?c') \<le> length (entries c)" unfolding e by simp
  moreover have "cache_inv (with_entries c (entries ?c'))" using i(1) eq by simp
  ultimately show ?thesis
    using Invalidate eq
    by (intro exI[of _ "Ret 0"] exI[of _ "entries ?c'"]) (simp add: query_cache_invalidate_def)
next
  case Clear
  have "cache_inv (with_entries c [])"
    using assms(1) unfolding inv_with_entries by (simp add: cache_inv_def)
  then show ?thesis
    using Clear clear_from_inv[OF assms(1)]
    by (intro exI[of _ "Ret 0"] exI[of _ "[]"]) (simp add: query_cache_clear_def)
qed

lemma run_inv:
  "cache_inv c \<Longrightarrow> list_all valid_call calls \<Longrightarrow>
   \<exists>outs es. run (Some c) calls = Inr (outs, Some (with_entries c es)) \<and>
     cache_inv (with_entries c es) \<and>
     (int (length (entries c)) \<le> max_entries c \<longrightarrow> int (length es) \<le> max_entries c)"
proof (induction calls arbitrary: c)
  case Nil
  then show ?case
    using inv_with_entries_self[OF Nil(1)]
    by (intro exI[of _ "[]"] exI[of _ "entries c"]) simp
next
  case (Cons cl calls)
  from Cons.prems(2) have v: "valid_call cl" "list_all valid_call calls" by simp_all
  from step_inv[OF Cons.prems(1) v(1)] obtain out es where
    s: "step (Some c) cl = Inr (out, Some (with_entries c es))"
    and i: "cache_inv (with_entries c es)"
    and b: "int (length (entries c)) \<le> max_entries c \<longrightarrow> int (length es) \<le> max_entries c"
    by blast
  from Cons.IH[OF i v(2)] obtain outs es' where
    r: "run (Some (with_entries c es)) calls = Inr (outs, Some (with_entries c es'))"
    and i': "cache_inv (with_entries c es')"
    and b': "int (length es) \<le> max_entries c \<longrightarrow> int (length es') \<le> max_entries c"
    by auto
  show ?case
    using s r i' b b' by (intro exI[of _ "out # outs"] exI[of _ es']) simp
qed

lemma create_fresh: "query_cache_create_context True = Some fresh"
  by (simp add: query_cache_create_context_def fresh_def)

lemma inv_fresh: "cache_inv fresh"
  by (simp add: cache_inv_def fresh_def DEFAULT_MAX_SIZE_def)

lemma reachable_inv:
  assumes "reachable c"
  shows "cache_inv c \<and> int (length (entries c)) \<le> max_entries c \<and>
     max_entries c = 1000 \<and> unat (max_size c) = 67108864 \<and> default_ttl c = 3600"
proof -
  from assms obtain calls outs where v: "list_all valid_call calls"
    and r: "run (Some fresh) calls = Inr (outs, Some c)"
    by (auto simp: reachable_def create_fresh)
  from run_inv[OF inv_fresh v] obtain outs' es where
    "run (Some fresh) calls = Inr (outs', Some (with_entries fresh es))"
    "cache_inv (with_entries fresh es)"
    "int (length (entries fresh)) \<le> max_entries fresh \<longrightarrow> int (length es) \<le> max_entries fresh"
    by blast
  with r have "c = with_entries fresh es" "cache_inv c" "int (length es) \<le> max_entries fresh"
    by (simp_all add: fresh_def DEFAULT_MAX_ENTRIES_def)
  then show ?thesis
    by (simp add: fresh_def DEFAULT_MAX_ENTRIES_def DEFAULT_MAX_SIZE_def DEFAULT_TTL_def)
qed

lemma reachable_fresh: "reachable fresh"
  unfolding reachable_def create_fresh
  by (intro exI[of _ "[]"]) simp

lemma inv_bounds:
  assumes "cache_inv c" "int (length (entries c)) \<le> max_entries c"
  shows "entry_count c \<le> max_entries c \<and> current_size c \<le> max_size c \<and>
     entry_count c = int (length (entries c)) \<and> unat (current_size c) = total_size (entries c)"
proof -
  have "total_size (entries c) \<le> unat (max_size c)" "current_size c = of_nat (total_size (entries c))"
    using assms(1) by (simp_all add: cache_inv_def)
  then have u: "unat (current_size c) = total_size (entries c)"
    by (simp only: le_unat_uoi)
  then have "current_size c \<le> max_size c"
    using assms(1) by (simp add: word_le_nat_alt cache_inv_def)
  then show ?thesis using assms u by (simp add: cache_inv_def)
qed

lemma put_inserts:
  assumes "cache_inv c" "int_len qry" "int_len res" "3 \<le> mallocs"
    and "fits c [] (new_entry qry res now)"
  shows "\<exists>k\<le>length (entries c).
     query_cache_put (Some c) qry res now mallocs =
       Inr (0, Some (with_entries c (new_entry qry res now # take k (entries c)))) \<and>
     cache_inv (with_entries c (new_entry qry res now # take k (entries c)))"
proof -
  let ?e = "new_entry qry res now"
  from put_char[OF assms(1-4), of now] obtain k where k: "k \<le> length (entries c)"
    and r: "if fits c (take k (entries c)) ?e
       then query_cache_put (Some c) qry res now mallocs =
              Inr (0, Some (with_entries c (?e # take k (entries c))))
       else k = 0 \<and> query_cache_put (Some c) qry res now mallocs = Inr (0, Some (with_entries c []))"
    by blast
  have f: "fits c (take k (entries c)) ?e"
    using r assms(5) by (cases "fits c (take k (entries c)) ?e") auto
  have "list_all entry_ok (?e # take k (entries c))"
    using assms(1) new_entry_ok[OF assms(2,3), of now]
    by (auto simp: cache_inv_def list_all_iff dest: in_set_takeD)
  then have "cache_inv (with_entries c (?e # take k (entries c)))"
    using f assms(1) unfolding inv_with_entries
    by (simp add: fits_def cache_inv_def add.commute)
  then show ?thesis using k r f by auto
qed

lemma get_head_hit:
  assumes "cache_inv c" "entries c = e # rest" "query e = qry" "\<not> expired c now e"
  shows "query_cache_get (Some c) qry now =
     Inr (0, Some (result e, result_len e), with_entries c (touch now e # rest))"
  using assms(2-4) by (simp add: get_char[OF assms(1)])

lemma scan_found:
  "(snd (scan_entries c now qry es) \<noteq> None) \<longleftrightarrow> (\<exists>e\<in>set es. \<not> expired c now e \<and> query e = qry)"
  by (induction es) (auto split: prod.splits)

lemma get_status:
  assumes "cache_inv c" "query_cache_get (Some c) qry now = Inr (status, out, c')"
  shows "(status = 0 \<and> out \<noteq> None \<and> (\<exists>e\<in>set (entries c). \<not> expired c now e \<and> query e = qry)) \<or>
         (status = 1 \<and> out = None \<and> \<not> (\<exists>e\<in>set (entries c). \<not> expired c now e \<and> query e = qry))"
proof -
  obtain kept r where s: "scan_entries c now qry (entries c) = (kept, r)"
    by (cases "scan_entries c now qry (entries c)")
  have f: "r \<noteq> None \<longleftrightarrow> (\<exists>e\<in>set (entries c). \<not> expired c now e \<and> query e = qry)"
    using scan_found[of c now qry "entries c"] s by simp
  show ?thesis
    using assms(2) s f unfolding get_char[OF assms(1)]
    by (cases r) auto
qed


lemma put_fits:
  assumes "cache_inv c" "int_len qry" "int_len res" "3 \<le> mallocs"
    and "fits c (entries c) (new_entry qry res now)"
  shows "query_cache_put (Some c) qry res now mallocs =
           Inr (0, Some (with_entries c (new_entry qry res now # entries c)))"
  unfolding put_ok[OF assms(4)]
  using add_cache_entry_fits[OF assms(1) new_entry_ok[OF assms(2,3)] assms(5)] by simp

lemma mentions_text:
  assumes "NUL \<notin> set table" "NUL \<notin> set (query e)"
  shows "mentions table e \<longleftrightarrow> sublist table (query e)"
  unfolding mentions_def c_str_text[OF assms(1)] c_str_terminated_text[OF assms(2)]
  by (rule strstr_sublist)

lemma invalidate_char:
  "query_cache_invalidate (Some c) table =
     Inr (0, invalidate_from c table 0) \<and>
   entries (invalidate_from c table 0) = filter (\<lambda>e. \<not> mentions table e) (entries c)"
  using invalidate_from_entries[of 0 c table] by (simp add: query_cache_invalidate_def)

lemma not_contained_not_mentioned:
  "\<not> sublist (c_str table) (query e) \<Longrightarrow> \<not> mentions table e"
proof
  assume n: "\<not> sublist (c_str table) (query e)" and m: "mentions table e"
  from m have "sublist (c_str table) (c_str (query e @ [NUL]))"
    by (simp only: mentions_def strstr_sublist)
  moreover have "sublist (c_str (query e @ [NUL])) (query e)"
    using c_str_prefix[of "query e"] by (rule prefix_imp_sublist)
  ultimately have "sublist (c_str table) (query e)"
    by (rule sublist_order.order_trans)
  with n show False by simp
qed

lemma inv_two_entries: "cache_inv (with_entries (fresh\<lparr>max_entries := 2\<rparr>)
     [new_entry ''B'' ''b'' 0, new_entry ''A'' ''a'' 0])"
  unfolding inv_with_entries
  by (simp add: new_entry_ok int_len_def fresh_def DEFAULT_MAX_SIZE_def)

lemma reachable_counters:
  assumes "reachable c"
  shows "0 \<le> entry_count c \<and> entry_count c \<le> 1000 \<and>
     (\<forall>e\<in>set (entries c). 0 \<le> query_len e \<and> 0 \<le> result_len e \<and>
        query_len e + result_len e < 2 ^ 31)"
proof -
  from reachable_inv[OF assms] have i: "cache_inv c"
    and b: "int (length (entries c)) \<le> max_entries c" "max_entries c = 1000" by simp_all
  have "\<And>e. e \<in> set (entries c) \<Longrightarrow> entry_size e \<le> total_size (entries c)"
  proof -
    fix e assume "e \<in> set (entries c)"
    then have "entry_size e \<in> set (map entry_size (entries c))" by simp
    then show "entry_size e \<le> total_size (entries c)"
      unfolding total_size_def by (rule member_le_sum_list) simp
  qed
  moreover have "total_size (entries c) < 2 ^ 31"
    using i by (simp add: cache_inv_def)
  ultimately have "\<And>e. e \<in> set (entries c) \<Longrightarrow> entry_size e < 2 ^ 31"
    by (meson le_less_trans)
  moreover have "\<And>e. e \<in> set (entries c) \<Longrightarrow> entry_ok e"
    using i by (simp add: cache_inv_def list_all_iff)
  ultimately show ?thesis
    using i b by (fastforce simp: cache_inv_def entry_ok_def entry_size_def)
qed

lemma get_outcome:
  assumes "cache_inv c" and "query_cache_get (Some c) qry now = Inr (status, out, c')"
  shows "(status = 1 \<and> out = None \<and>
          entries c' = filter (\<lambda>e. \<not> expired c now e) (entries c)) \<or>
         (\<exists>pre m post. status = 0 \<and> out = Some (result m, result_len m) \<and>
            entries c = pre @ m # post \<and> \<not> expired c now m \<and> query m = qry \<and>
            (\<forall>e\<in>set pre. expired c now e \<or> query e \<noteq> qry) \<and>
            entries c' = touch now m # filter (\<lambda>e. \<not> expired c now e) pre @ post)"
proof -
  obtain kept r where s: "scan_entries c now qry (entries c) = (kept, r)"
    by (cases "scan_entries c now qry (entries c)")
  show ?thesis
  proof (cases r)
    case None
    from scan_miss[OF s[unfolded None]] assms(2) s None show ?thesis
      unfolding get_char[OF assms(1)] by auto
  next
    case (Some mp)
    obtain m post where mp: "mp = (m, post)" by (cases mp)
    from scan_hit[OF s[unfolded Some mp]] obtain pre where
      "entries c = pre @ m # post" "kept = filter (\<lambda>e. \<not> expired c now e) pre"
      "\<forall>e\<in>set pre. expired c now e \<or> query e \<noteq> qry" "\<not> expired c now m" "query m = qry"
      by blast
    moreover have "status = 0" "out = Some (result m, result_len m)"
      "c' = with_entries c (touch now m # kept @ post)"
      using assms(2) s Some mp unfolding get_char[OF assms(1)] by simp_all
    ultimately show ?thesis by (intro disjI2 exI[of _ pre] exI[of _ m] exI[of _ post]) simp
  qed
qed

section \<open>The claims\<close>

text \<open>
  C1 (amended). In every state reachable from a fresh context, when the three allocations
  of \<open>put\<close> succeed, \<open>put(q, r)\<close> followed by \<open>get(q)\<close> at the same
  clock value returns \<open>r\<close>, unless the size accounted for the new entry, key length
  plus value length plus \<open>sizeof(CacheEntry)\<close>, exceeds \<open>max_size\<close>.
\<close>

theorem hit_after_put:
  assumes "reachable c" "int_len qry" "int_len res" "3 \<le> mallocs"
    and "length qry + length res + 72 \<le> unat (max_size c)"
  shows "\<exists>c'. run (Some c) [Put qry res now mallocs, Get qry now] =
           Inr ([Ret 0, GetRet 0 (Some (res, int (length res)))], Some c')"
proof -
  let ?e = "new_entry qry res now"
  from reachable_inv[OF assms(1)] have i: "cache_inv c" and cfg: "max_entries c = 1000"
    "default_ttl c = 3600" by simp_all
  have f: "fits c [] ?e" using assms(5) cfg by (simp add: fits_def)
  from put_inserts[OF i assms(2-4) f] obtain k where
    p: "query_cache_put (Some c) qry res now mallocs =
          Inr (0, Some (with_entries c (?e # take k (entries c))))"
    and i1: "cache_inv (with_entries c (?e # take k (entries c)))"
    by blast
  have "\<not> expired (with_entries c (?e # take k (entries c))) now ?e"
    using cfg by (simp add: expired_def)
  from get_head_hit[OF i1 _ _ this, of "take k (entries c)" qry]
  have g: "query_cache_get (Some (with_entries c (?e # take k (entries c)))) qry now =
     Inr (0, Some (res, int (length res)),
          with_entries c (touch now ?e # take k (entries c)))"
    by simp
  show ?thesis using p g by simp
qed

text \<open>The amended statement at a one-byte result stored in the fresh context.\<close>

theorem hit_after_put_witness:
  "reachable fresh \<and> int_len ''SELECT 1'' \<and> int_len ''1'' \<and>
   (\<exists>c'. run (Some fresh) [Put ''SELECT 1'' ''1'' 7 3, Get ''SELECT 1'' 7] =
           Inr ([Ret 0, GetRet 0 (Some (''1'', 1))], Some c'))"
proof -
  have l: "int_len ''SELECT 1''" "int_len ''1''" by (simp_all add: int_len_def)
  have s: "length ''SELECT 1'' + length ''1'' + 72 \<le> unat (max_size fresh)"
    by (simp add: fresh_def DEFAULT_MAX_SIZE_def)
  show ?thesis
    using hit_after_put[OF reachable_fresh l order_refl s, of 7] l reachable_fresh by simp
qed

text \<open>
  C1 as stated fails: a result of \<open>64 MiB - 72\<close> bytes does not exceed \<open>max_size\<close>
  by itself, but with a one-byte key and the per-entry overhead the entry does, so
  \<open>put\<close> drops it and the \<open>get\<close> that follows misses.
\<close>

theorem hit_after_put_counterexample:
  "length (replicate 67108792 CHR ''r'') \<le> unat DEFAULT_MAX_SIZE \<and>
   map_sum id fst (run (query_cache_create_context True)
       [Put ''q'' (replicate 67108792 CHR ''r'') 0 3, Get ''q'' 0])
     = Inr [Ret 0, GetRet 1 None]"
  by (simp add: query_cache_create_context_def DEFAULT_MAX_SIZE_def DEFAULT_MAX_ENTRIES_def
      DEFAULT_TTL_def query_cache_put_def query_cache_get_def find_cache_entry_def
      add_cache_entry.simps find_cache_entry_from.simps sizeof_CacheEntry_def)

text \<open>
  C2. After every \<open>put\<close> on a state reachable from a fresh context,
  \<open>entry_count \<le> max_entries\<close> and \<open>current_size \<le> max_size\<close>, the two
  counters being the length and the accounted size of the list. When the allocations
  succeed, the loop has removed entries from the tail, keeping the first \<open>k\<close>: for
  every longer prefix the limits did not admit the new entry, and either they admit it
  next to the first \<open>k\<close> entries, where it is inserted at the head, or the list has
  been emptied (\<open>k = 0\<close>) and the entry is not inserted.
\<close>

theorem capacity_bound_after_put:
  assumes "reachable c" "int_len qry" "int_len res"
    and "query_cache_put (Some c) qry res now mallocs = Inr (status, ctx')"
  shows "\<exists>c'. ctx' = Some c' \<and>
     entry_count c' \<le> max_entries c' \<and> current_size c' \<le> max_size c' \<and>
     entry_count c' = int (length (entries c')) \<and>
     unat (current_size c') = total_size (entries c') \<and>
     (3 \<le> mallocs \<longrightarrow>
       (\<exists>k\<le>length (entries c).
          (\<forall>j. k < j \<and> j \<le> length (entries c) \<longrightarrow>
               \<not> fits c (take j (entries c)) (new_entry qry res now)) \<and>
          (if fits c (take k (entries c)) (new_entry qry res now)
           then entries c' = new_entry qry res now # take k (entries c)
           else k = 0 \<and> entries c' = [])))"
proof -
  from reachable_inv[OF assms(1)] have i: "cache_inv c"
    and b: "int (length (entries c)) \<le> max_entries c" by simp_all
  from step_inv[OF i, of "Put qry res now mallocs"] assms(2,3,4)
  obtain es where c': "ctx' = Some (with_entries c es)"
    and i': "cache_inv (with_entries c es)"
    and b': "int (length es) \<le> max_entries c"
    using b by auto
  have bounds: "entry_count (with_entries c es) \<le> max_entries (with_entries c es) \<and>
     current_size (with_entries c es) \<le> max_size (with_entries c es) \<and>
     entry_count (with_entries c es) = int (length (entries (with_entries c es))) \<and>
     unat (current_size (with_entries c es)) = total_size (entries (with_entries c es))"
    by (rule inv_bounds[OF i']) (use b' in simp)
  have loop: "3 \<le> mallocs \<longrightarrow>
       (\<exists>k\<le>length (entries c).
          (\<forall>j. k < j \<and> j \<le> length (entries c) \<longrightarrow>
               \<not> fits c (take j (entries c)) (new_entry qry res now)) \<and>
          (if fits c (take k (entries c)) (new_entry qry res now)
           then entries (with_entries c es) = new_entry qry res now # take k (entries c)
           else k = 0 \<and> entries (with_entries c es) = []))"
  proof
    assume m: "3 \<le> mallocs"
    from put_char[OF i assms(2,3) m, of now] obtain k where k: "k \<le> length (entries c)"
      "\<forall>j. k < j \<and> j \<le> length (entries c) \<longrightarrow>
           \<not> fits c (take j (entries c)) (new_entry qry res now)"
      "if fits c (take k (entries c)) (new_entry qry res now)
       then query_cache_put (Some c) qry res now mallocs =
              Inr (0, Some (with_entries c (new_entry qry res now # take k (entries c))))
       else k = 0 \<and> query_cache_put (Some c) qry res now mallocs = Inr (0, Some (with_entries c []))"
      by blast
    have "if fits c (take k (entries c)) (new_entry qry res now)
           then entries (with_entries c es) = new_entry qry res now # take k (entries c)
           else k = 0 \<and> entries (with_entries c es) = []"
    proof (cases "fits c (take k (entries c)) (new_entry qry res now)")
      case True
      with k(3) assms(4) c' have "with_entries c es = with_entries c (new_entry qry res now # take k (entries c))"
        by simp
      then have "entries (with_entries c es) = entries (with_entries c (new_entry qry res now # take k (entries c)))"
        by (rule arg_cong)
      then show ?thesis using True by simp
    next
      case False
      with k(3) assms(4) c' have k0: "k = 0" and "with_entries c es = with_entries c []"
        by simp_all
      then have "entries (with_entries c es) = entries (with_entries c [])"
        by simp
      then show ?thesis using False k0 by simp
    qed
    with k(1,2) show "\<exists>k\<le>length (entries c).
          (\<forall>j. k < j \<and> j \<le> length (entries c) \<longrightarrow>
               \<not> fits c (take j (entries c)) (new_entry qry res now)) \<and>
          (if fits c (take k (entries c)) (new_entry qry res now)
           then entries (with_entries c es) = new_entry qry res now # take k (entries c)
           else k = 0 \<and> entries (with_entries c es) = [])"
      by blast
  qed
  show ?thesis using c' bounds loop by blast
qed

text \<open>The statement at the first insertion into the fresh context.\<close>

theorem capacity_bound_after_put_witness:
  "reachable fresh \<and> int_len ''q'' \<and> int_len ''r'' \<and>
   (\<exists>c'. query_cache_put (Some fresh) ''q'' ''r'' 0 3 = Inr (0, Some c') \<and>
      entry_count c' \<le> max_entries c' \<and> current_size c' \<le> max_size c' \<and>
      entry_count c' = int (length (entries c')) \<and>
      unat (current_size c') = total_size (entries c'))"
proof -
  have l: "int_len ''q''" "int_len ''r''" by (simp_all add: int_len_def)
  have p: "query_cache_put (Some fresh) ''q'' ''r'' 0 3 =
             Inr (0, Some (add_cache_entry fresh (new_entry ''q'' ''r'' 0)))"
    by (simp add: put_ok)
  from capacity_bound_after_put[OF reachable_fresh l p]
  show ?thesis using l reachable_fresh p by auto
qed

text \<open>
  C3 (amended). An entry for \<open>q\<close> that \<open>put\<close> stamped with creation time
  \<open>t\<close> and that is still in the list makes \<open>get(q)\<close> a HIT at every time
  \<open>now \<le> t + default_ttl\<close>; at every time \<open>now > t + default_ttl\<close> the call
  is a MISS, provided no entry for \<open>q\<close> in the list is younger. The expiry test of
  the scan is \<open>now - created_time > default_ttl\<close>: at \<open>now = t + default_ttl\<close>
  the entry is still served.
\<close>

theorem ttl_expiry:
  assumes "cache_inv c" "e \<in> set (entries c)" "query e = qry" "created_time e = t"
    and "query_cache_get (Some c) qry now = Inr (status, out, c')"
  shows "(now \<le> t + default_ttl c \<longrightarrow> status = 0 \<and> out \<noteq> None) \<and>
         (now > t + default_ttl c \<and>
            (\<forall>e'\<in>set (entries c). query e' = qry \<longrightarrow> created_time e' \<le> t)
          \<longrightarrow> status = 1 \<and> out = None)"
proof (rule conjI; rule impI)
  assume "now \<le> t + default_ttl c"
  then have "\<not> expired c now e" using assms(4) by (simp add: expired_def)
  then have "\<exists>e\<in>set (entries c). \<not> expired c now e \<and> query e = qry"
    using assms(2,3) by blast
  then show "status = 0 \<and> out \<noteq> None"
    using get_status[OF assms(1,5)] by blast
next
  assume a: "now > t + default_ttl c \<and>
            (\<forall>e'\<in>set (entries c). query e' = qry \<longrightarrow> created_time e' \<le> t)"
  have "\<not> (\<exists>e\<in>set (entries c). \<not> expired c now e \<and> query e = qry)"
  proof
    assume "\<exists>e\<in>set (entries c). \<not> expired c now e \<and> query e = qry"
    then obtain e' where e': "e' \<in> set (entries c)" "\<not> expired c now e'" "query e' = qry"
      by blast
    then have "created_time e' \<le> t" using a by blast
    then show False using e'(2) a by (simp add: expired_def)
  qed
  then show "status = 1 \<and> out = None"
    using get_status[OF assms(1,5)] by blast
qed

text \<open>
  The amended statement for an entry created at time 100 in the default configuration:
  a HIT at 3700, a MISS at 3701.
\<close>

theorem ttl_expiry_witness:
  "cache_inv (with_entries fresh [new_entry ''q'' ''r'' 100]) \<and>
   query_cache_get (Some (with_entries fresh [new_entry ''q'' ''r'' 100])) ''q'' 3700
     = Inr (0, Some (''r'', 1), with_entries fresh [touch 3700 (new_entry ''q'' ''r'' 100)]) \<and>
   query_cache_get (Some (with_entries fresh [new_entry ''q'' ''r'' 100])) ''q'' 3701
     = Inr (1, None, with_entries fresh [])"
proof -
  let ?c = "with_entries fresh [new_entry ''q'' ''r'' 100]"
  have i: "cache_inv ?c"
    unfolding inv_with_entries
    by (simp add: new_entry_ok int_len_def fresh_def DEFAULT_MAX_SIZE_def)
  have ttl: "default_ttl fresh = 3600" by (simp add: fresh_def DEFAULT_TTL_def)
  have g1: "query_cache_get (Some ?c) ''q'' 3700
     = Inr (0, Some (''r'', 1), with_entries fresh [touch 3700 (new_entry ''q'' ''r'' 100)])"
    by (simp add: get_char[OF i] expired_def ttl)
  have g2: "query_cache_get (Some ?c) ''q'' 3701 = Inr (1, None, with_entries fresh [])"
    by (simp add: get_char[OF i] expired_def ttl)
  have m: "new_entry ''q'' ''r'' 100 \<in> set (entries ?c)" by simp
  from ttl_expiry[OF i m _ _ g1, of 100] ttl_expiry[OF i m _ _ g2, of 100]
  show ?thesis using i g1 g2 by simp
qed

text \<open>
  C3 as stated fails at the boundary: an entry inserted at time 0 is found at time
  \<open>0 + DEFAULT_TTL\<close>.
\<close>

theorem ttl_expiry_counterexample:
  "(3600::int) \<ge> 0 + DEFAULT_TTL \<and>
   map_sum id fst (run (query_cache_create_context True)
       [Put ''q'' ''r'' 0 3, Get ''q'' 3600])
     = Inr [Ret 0, GetRet 0 (Some (''r'', 1))]"
  by code_simp

text \<open>
  C4. With the allocations succeeding, the list after \<open>put\<close> is the new entry
  followed by a prefix of the old list (or empty): what is evicted is taken from the
  tail. A \<open>get\<close> hit leaves the matched entry, with its access data updated, at the
  head, followed by the other entries in their order. With \<open>max_entries = 2\<close>:
  after inserting A, B, C, \<open>get(A)\<close> misses and \<open>get(B)\<close>, \<open>get(C)\<close> hit;
  after inserting A, B, calling \<open>get(A)\<close> and inserting C, \<open>get(B)\<close> misses and
  \<open>get(A)\<close> hits.
\<close>

theorem lru_eviction_order:
  assumes "cache_inv c"
  shows "(int_len qry \<and> int_len res \<and> 3 \<le> mallocs \<longrightarrow>
           (\<exists>k\<le>length (entries c). \<exists>c'.
               query_cache_put (Some c) qry res now mallocs = Inr (0, Some c') \<and>
               (entries c' = new_entry qry res now # take k (entries c) \<or>
                k = 0 \<and> entries c' = []))) \<and>
         (\<forall>out c'. query_cache_get (Some c) qry now = Inr (0, out, c') \<longrightarrow>
           (\<exists>pre m post. entries c = pre @ m # post \<and> query m = qry \<and>
              entries c' = touch now m # filter (\<lambda>e. \<not> expired c now e) pre @ post)) \<and>
         map_sum id fst (run (Some (fresh\<lparr>max_entries := 2\<rparr>))
             [Put ''A'' ''a'' 0 3, Put ''B'' ''b'' 0 3, Put ''C'' ''c'' 0 3,
              Get ''A'' 0, Get ''B'' 0, Get ''C'' 0])
           = Inr [Ret 0, Ret 0, Ret 0,
                  GetRet 1 None, GetRet 0 (Some (''b'', 1)), GetRet 0 (Some (''c'', 1))] \<and>
         map_sum id fst (run (Some (fresh\<lparr>max_entries := 2\<rparr>))
             [Put ''A'' ''a'' 0 3, Put ''B'' ''b'' 0 3, Get ''A'' 0, Put ''C'' ''c'' 0 3,
              Get ''B'' 0, Get ''A'' 0, Get ''C'' 0])
           = Inr [Ret 0, Ret 0, GetRet 0 (Some (''a'', 1)), Ret 0,
                  GetRet 1 None, GetRet 0 (Some (''a'', 1)), GetRet 0 (Some (''c'', 1))]"
proof -
  have put: "int_len qry \<and> int_len res \<and> 3 \<le> mallocs \<longrightarrow>
           (\<exists>k\<le>length (entries c). \<exists>c'.
               query_cache_put (Some c) qry res now mallocs = Inr (0, Some c') \<and>
               (entries c' = new_entry qry res now # take k (entries c) \<or>
                k = 0 \<and> entries c' = []))"
  proof
    assume a: "int_len qry \<and> int_len res \<and> 3 \<le> mallocs"
    then have a': "int_len qry" "int_len res" "3 \<le> mallocs" by simp_all
    from put_char[OF assms a', of now] obtain k where k: "k \<le> length (entries c)"
      and r: "if fits c (take k (entries c)) (new_entry qry res now)
       then query_cache_put (Some c) qry res now mallocs =
              Inr (0, Some (with_entries c (new_entry qry res now # take k (entries c))))
       else k = 0 \<and> query_cache_put (Some c) qry res now mallocs = Inr (0, Some (with_entries c []))"
      by blast
    show "\<exists>k\<le>length (entries c). \<exists>c'.
               query_cache_put (Some c) qry res now mallocs = Inr (0, Some c') \<and>
               (entries c' = new_entry qry res now # take k (entries c) \<or>
                k = 0 \<and> entries c' = [])"
    proof (cases "fits c (take k (entries c)) (new_entry qry res now)")
      case True
      with r k show ?thesis
        by (intro exI[of _ k] conjI
            exI[of _ "with_entries c (new_entry qry res now # take k (entries c))"]) simp_all
    next
      case False
      with r k show ?thesis
        by (intro exI[of _ k] conjI exI[of _ "with_entries c []"]) simp_all
    qed
  qed
  have get: "\<forall>out c'. query_cache_get (Some c) qry now = Inr (0, out, c') \<longrightarrow>
           (\<exists>pre m post. entries c = pre @ m # post \<and> query m = qry \<and>
              entries c' = touch now m # filter (\<lambda>e. \<not> expired c now e) pre @ post)"
    using get_outcome[OF assms, of qry now 0] by fastforce
  have s1: "map_sum id fst (run (Some (fresh\<lparr>max_entries := 2\<rparr>))
             [Put ''A'' ''a'' 0 3, Put ''B'' ''b'' 0 3, Put ''C'' ''c'' 0 3,
              Get ''A'' 0, Get ''B'' 0, Get ''C'' 0])
           = Inr [Ret 0, Ret 0, Ret 0,
                  GetRet 1 None, GetRet 0 (Some (''b'', 1)), GetRet 0 (Some (''c'', 1))]"
    by code_simp
  have s2: "map_sum id fst (run (Some (fresh\<lparr>max_entries := 2\<rparr>))
             [Put ''A'' ''a'' 0 3, Put ''B'' ''b'' 0 3, Get ''A'' 0, Put ''C'' ''c'' 0 3,
              Get ''B'' 0, Get ''A'' 0, Get ''C'' 0])
           = Inr [Ret 0, Ret 0, GetRet 0 (Some (''a'', 1)), Ret 0,
                  GetRet 1 None, GetRet 0 (Some (''a'', 1)), GetRet 0 (Some (''c'', 1))]"
    by code_simp
  show ?thesis using put get s1 s2 by blast
qed

text \<open>
  The statement at a full two-entry cache: inserting C keeps a prefix of the list.
\<close>

theorem lru_eviction_order_witness:
  "cache_inv (with_entries (fresh\<lparr>max_entries := 2\<rparr>)
     [new_entry ''B'' ''b'' 0, new_entry ''A'' ''a'' 0]) \<and>
   (\<exists>k\<le>length (entries (with_entries (fresh\<lparr>max_entries := 2\<rparr>)
         [new_entry ''B'' ''b'' 0, new_entry ''A'' ''a'' 0])). \<exists>c'.
      query_cache_put (Some (with_entries (fresh\<lparr>max_entries := 2\<rparr>)
         [new_entry ''B'' ''b'' 0, new_entry ''A'' ''a'' 0])) ''C'' ''c'' 0 3 = Inr (0, Some c') \<and>
      (entries c' = new_entry ''C'' ''c'' 0 #
           take k (entries (with_entries (fresh\<lparr>max_entries := 2\<rparr>)
             [new_entry ''B'' ''b'' 0, new_entry ''A'' ''a'' 0])) \<or>
       k = 0 \<and> entries c' = []))"
proof -
  have l: "int_len ''C'' \<and> int_len ''c'' \<and> (3::nat) \<le> 3" by (simp add: int_len_def)
  show ?thesis
    using lru_eviction_order[OF inv_two_entries, of "''C''" "''c''" 3 0, THEN conjunct1] l inv_two_entries
    by blast
qed

text \<open>
  C5. When the incoming entry alone exceeds \<open>max_size\<close> (key length plus value
  length plus \<open>sizeof(CacheEntry)\<close>) and the allocations succeed, \<open>put\<close> returns
  0 and leaves the cache empty: the loop has evicted every entry and the new entry is
  not stored.
\<close>

theorem oversized_put_dropped:
  assumes "cache_inv c" "int_len qry" "int_len res" "3 \<le> mallocs"
    and "length qry + length res + 72 > unat (max_size c)"
  shows "query_cache_put (Some c) qry res now mallocs =
           Inr (0, Some (c\<lparr>entries := [], entry_count := 0, current_size := 0\<rparr>))"
proof -
  let ?e = "new_entry qry res now"
  have nf: "\<And>es. \<not> fits c es ?e" using assms(5) by (simp add: fits_def)
  from put_char[OF assms(1-4), of now] obtain k where
    "if fits c (take k (entries c)) ?e
       then query_cache_put (Some c) qry res now mallocs =
              Inr (0, Some (with_entries c (?e # take k (entries c))))
       else k = 0 \<and> query_cache_put (Some c) qry res now mallocs = Inr (0, Some (with_entries c []))"
    by blast
  then have "query_cache_put (Some c) qry res now mallocs = Inr (0, Some (with_entries c []))"
    using nf by simp
  then show ?thesis by (simp add: with_entries_def)
qed

text \<open>
  The statement for a context limited to 80 bytes that holds one entry.
\<close>

theorem oversized_put_dropped_witness:
  "cache_inv (with_entries (fresh\<lparr>max_size := 80\<rparr>) [new_entry ''A'' ''a'' 0]) \<and>
   int_len ''SELECT 1'' \<and> int_len ''1'' \<and>
   length ''SELECT 1'' + length ''1'' + 72 > unat (80 :: size_t) \<and>
   query_cache_put (Some (with_entries (fresh\<lparr>max_size := 80\<rparr>) [new_entry ''A'' ''a'' 0]))
       ''SELECT 1'' ''1'' 5 3
     = Inr (0, Some (fresh\<lparr>max_size := 80\<rparr>))"
proof -
  let ?c = "with_entries (fresh\<lparr>max_size := 80\<rparr>) [new_entry ''A'' ''a'' 0]"
  have i: "cache_inv ?c"
    unfolding inv_with_entries by (simp add: new_entry_ok int_len_def fresh_def)
  have l: "int_len ''SELECT 1''" "int_len ''1''" by (simp_all add: int_len_def)
  have s: "length ''SELECT 1'' + length ''1'' + 72 > unat (max_size ?c)"
    by (simp add: fresh_def)
  from oversized_put_dropped[OF i l order_refl s, of 5]
  show ?thesis using i l by (simp add: with_entries_def fresh_def)
qed

text \<open>
  C6. What \<open>get\<close> leaves behind. On a miss the scan has visited the whole list and
  the list afterwards is the old one without its expired entries. On a hit at entry
  \<open>m\<close>, the scan has visited the entries \<open>pre\<close> in front of \<open>m\<close>: the
  expired ones among them are gone whatever their key, the others stay in order behind
  \<open>m\<close>, and the entries \<open>post\<close> behind \<open>m\<close>, which the scan did not reach,
  are untouched.
\<close>

theorem get_evicts_expired:
  assumes "cache_inv c" and "query_cache_get (Some c) qry now = Inr (status, out, c')"
  shows "(status = 1 \<and> out = None \<and>
          entries c' = filter (\<lambda>e. \<not> expired c now e) (entries c)) \<or>
         (\<exists>pre m post. status = 0 \<and> out = Some (result m, result_len m) \<and>
            entries c = pre @ m # post \<and> \<not> expired c now m \<and> query m = qry \<and>
            (\<forall>e\<in>set pre. expired c now e \<or> query e \<noteq> qry) \<and>
            entries c' = touch now m # filter (\<lambda>e. \<not> expired c now e) pre @ post)"
  using assms by (rule get_outcome)

text \<open>
  The statement for a lookup of B at time 6000 behind an expired entry A.
\<close>

theorem get_evicts_expired_witness:
  "cache_inv (with_entries fresh
      [new_entry ''A'' ''a'' 0, new_entry ''B'' ''b'' 5000, new_entry ''C'' ''c'' 0]) \<and>
   query_cache_get (Some (with_entries fresh
      [new_entry ''A'' ''a'' 0, new_entry ''B'' ''b'' 5000, new_entry ''C'' ''c'' 0])) ''B'' 6000
     = Inr (0, Some (''b'', 1),
            with_entries fresh [touch 6000 (new_entry ''B'' ''b'' 5000), new_entry ''C'' ''c'' 0])"
proof -
  let ?c = "with_entries fresh
      [new_entry ''A'' ''a'' 0, new_entry ''B'' ''b'' 5000, new_entry ''C'' ''c'' 0]"
  have i: "cache_inv ?c"
    unfolding inv_with_entries
    by (simp add: new_entry_ok int_len_def fresh_def DEFAULT_MAX_SIZE_def)
  have ttl: "default_ttl fresh = 3600" by (simp add: fresh_def DEFAULT_TTL_def)
  have g: "query_cache_get (Some ?c) ''B'' 6000
     = Inr (0, Some (''b'', 1),
            with_entries fresh [touch 6000 (new_entry ''B'' ''b'' 5000), new_entry ''C'' ''c'' 0])"
    by (simp add: get_char[OF i] expired_def ttl)
  from get_evicts_expired[OF i g] show ?thesis using i g by simp
qed

text \<open>
  C7 (amended). For a table name and stored keys without NUL bytes,
  \<open>invalidate(table)\<close> returns 0 and removes exactly the entries whose key contains
  \<open>table\<close> as a contiguous byte sequence; with the keys
  \<open>SELECT * FROM orders\<close> and \<open>SELECT * FROM users\<close> cached,
  \<open>invalidate(orders)\<close> removes only the first.
\<close>

theorem invalidate_substring:
  assumes "NUL \<notin> set table" and "\<forall>e\<in>set (entries c). NUL \<notin> set (query e)"
  shows "(\<exists>c'. query_cache_invalidate (Some c) table = Inr (0, c') \<and>
            entries c' = filter (\<lambda>e. \<not> sublist table (query e)) (entries c)) \<and>
         map_sum id fst (run (query_cache_create_context True)
             [Put ''SELECT * FROM orders'' ''o'' 0 3, Put ''SELECT * FROM users'' ''u'' 0 3,
              Invalidate ''orders'',
              Get ''SELECT * FROM users'' 0, Get ''SELECT * FROM orders'' 0])
           = Inr [Ret 0, Ret 0, Ret 0, GetRet 0 (Some (''u'', 1)), GetRet 1 None]"
proof -
  have "filter (\<lambda>e. \<not> mentions table e) (entries c)
        = filter (\<lambda>e. \<not> sublist table (query e)) (entries c)"
    using assms by (intro filter_cong refl) (simp add: mentions_text)
  then have g: "\<exists>c'. query_cache_invalidate (Some c) table = Inr (0, c') \<and>
            entries c' = filter (\<lambda>e. \<not> sublist table (query e)) (entries c)"
    using invalidate_char[of c table] by simp
  have s: "map_sum id fst (run (query_cache_create_context True)
             [Put ''SELECT * FROM orders'' ''o'' 0 3, Put ''SELECT * FROM users'' ''u'' 0 3,
              Invalidate ''orders'',
              Get ''SELECT * FROM users'' 0, Get ''SELECT * FROM orders'' 0])
           = Inr [Ret 0, Ret 0, Ret 0, GetRet 0 (Some (''u'', 1)), GetRet 1 None]"
    by code_simp
  show ?thesis using g s by blast
qed

text \<open>
  The general part of the statement at the two-key cache.
\<close>

theorem invalidate_substring_witness:
  "NUL \<notin> set ''orders'' \<and>
   (\<exists>c'. query_cache_invalidate (Some (with_entries fresh
             [new_entry ''SELECT * FROM users'' ''u'' 0,
              new_entry ''SELECT * FROM orders'' ''o'' 0])) ''orders'' = Inr (0, c') \<and>
          entries c' = [new_entry ''SELECT * FROM users'' ''u'' 0])"
proof -
  let ?c = "with_entries fresh
             [new_entry ''SELECT * FROM users'' ''u'' 0,
              new_entry ''SELECT * FROM orders'' ''o'' 0]"
  have t: "NUL \<notin> set ''orders''" by (simp add: NUL_def)
  have k: "\<forall>e\<in>set (entries ?c). NUL \<notin> set (query e)" by (simp add: NUL_def)
  have s1: "\<not> sublist ''orders'' ''SELECT * FROM users''" by code_simp
  have s2: "sublist ''orders'' ''SELECT * FROM orders''" by code_simp
  from invalidate_substring[OF t k] show ?thesis using t s1 s2 by simp
qed

text \<open>
  C7 as stated fails, because \<open>strstr\<close> reads both arguments as C strings: a key
  with a NUL byte in front of the table name contains it but is kept, and a byte
  sequence with a NUL byte after the table name is not contained in the key but the
  entry is removed.
\<close>

theorem invalidate_substring_counterexample:
  "sublist ''orders'' (''SELECT 1 /*'' @ [NUL] @ ''*/ FROM orders'') \<and>
   map_sum id fst (run (query_cache_create_context True)
       [Put (''SELECT 1 /*'' @ [NUL] @ ''*/ FROM orders'') ''r'' 0 3,
        Invalidate ''orders'',
        Get (''SELECT 1 /*'' @ [NUL] @ ''*/ FROM orders'') 0])
     = Inr [Ret 0, Ret 0, GetRet 0 (Some (''r'', 1))] \<and>
   \<not> sublist (''orders'' @ [NUL] @ ''x'') ''SELECT * FROM orders'' \<and>
   map_sum id fst (run (query_cache_create_context True)
       [Put ''SELECT * FROM orders'' ''r'' 0 3,
        Invalidate (''orders'' @ [NUL] @ ''x''),
        Get ''SELECT * FROM orders'' 0])
     = Inr [Ret 0, Ret 0, GetRet 1 None]"
  by code_simp

text \<open>
  C8 (amended). Two \<open>put\<close>s of the same key that both fit without eviction leave
  two entries, the second in front of the first, and a \<open>get\<close> of the key at a time
  \<open>now\<close> at which the second entry is unexpired (\<open>now - t2 \<le> default_ttl\<close>,
  \<open>t2\<close> the clock value of the second \<open>put\<close>) returns the second value.
\<close>

theorem put_no_dedup:
  assumes "cache_inv c" "int_len qry" "int_len r1" "int_len r2" "3 \<le> m1" "3 \<le> m2"
    and "int (length (entries c)) + 2 \<le> max_entries c"
    and "total_size (entries c) + (length qry + length r1 + 72) + (length qry + length r2 + 72)
           \<le> unat (max_size c)"
    and "now - t2 \<le> default_ttl c"
  shows "\<exists>c2 c3. run (Some c) [Put qry r1 t1 m1, Put qry r2 t2 m2] = Inr ([Ret 0, Ret 0], Some c2) \<and>
           entries c2 = new_entry qry r2 t2 # new_entry qry r1 t1 # entries c \<and>
           query_cache_get (Some c2) qry now = Inr (0, Some (r2, int (length r2)), c3)"
proof -
  let ?e1 = "new_entry qry r1 t1" and ?e2 = "new_entry qry r2 t2"
  let ?c1 = "with_entries c (?e1 # entries c)"
  let ?c2 = "with_entries c (?e2 # ?e1 # entries c)"
  have f1: "fits c (entries c) ?e1" using assms(7,8) by (simp add: fits_def)
  have p1: "query_cache_put (Some c) qry r1 t1 m1 = Inr (0, Some ?c1)"
    by (rule put_fits[OF assms(1,2,3,5) f1])
  have ok: "list_all entry_ok (entries c)" using assms(1) by (simp add: cache_inv_def)
  have i1: "cache_inv ?c1"
    unfolding inv_with_entries using assms(1,8) ok new_entry_ok[OF assms(2,3), of t1]
    by (simp add: cache_inv_def)
  have f2: "fits ?c1 (entries ?c1) ?e2" using assms(7,8) by (simp add: fits_def)
  have p2: "query_cache_put (Some ?c1) qry r2 t2 m2 = Inr (0, Some ?c2)"
    using put_fits[OF i1 assms(2,4,6) f2] by simp
  have i2: "cache_inv ?c2"
    unfolding inv_with_entries
    using assms(1,8) ok new_entry_ok[OF assms(2,3), of t1] new_entry_ok[OF assms(2,4), of t2]
    by (simp add: cache_inv_def)
  have "\<not> expired ?c2 now ?e2" using assms(9) by (simp add: expired_def)
  from get_head_hit[OF i2 _ _ this, of "?e1 # entries c" qry]
  have g: "query_cache_get (Some ?c2) qry now =
     Inr (0, Some (r2, int (length r2)), with_entries ?c2 (touch now ?e2 # ?e1 # entries c))"
    by simp
  have r: "run (Some c) [Put qry r1 t1 m1, Put qry r2 t2 m2] = Inr ([Ret 0, Ret 0], Some ?c2)"
    using p1 p2 by simp
  show ?thesis
    using r g by (intro exI[of _ ?c2] exI[of _ "with_entries ?c2 (touch now ?e2 # ?e1 # entries c)"]) simp
qed

text \<open>
  The statement for two values stored under \<open>q\<close> in the fresh context.
\<close>

theorem put_no_dedup_witness:
  "cache_inv fresh \<and> int_len ''q'' \<and> int_len ''one'' \<and> int_len ''two'' \<and>
   (\<exists>c2 c3. run (Some fresh) [Put ''q'' ''one'' 10 3, Put ''q'' ''two'' 20 3]
               = Inr ([Ret 0, Ret 0], Some c2) \<and>
            entries c2 = [new_entry ''q'' ''two'' 20, new_entry ''q'' ''one'' 10] \<and>
            query_cache_get (Some c2) ''q'' 30 = Inr (0, Some (''two'', 3), c3))"
proof -
  have l: "int_len ''q''" "int_len ''one''" "int_len ''two''" by (simp_all add: int_len_def)
  have n: "int (length (entries fresh)) + 2 \<le> max_entries fresh"
    by (simp add: fresh_def DEFAULT_MAX_ENTRIES_def)
  have s: "total_size (entries fresh) + (length ''q'' + length ''one'' + 72)
             + (length ''q'' + length ''two'' + 72) \<le> unat (max_size fresh)"
    by (simp add: fresh_def DEFAULT_MAX_SIZE_def)
  have t: "30 - 20 \<le> default_ttl fresh" by (simp add: fresh_def DEFAULT_TTL_def)
  have e: "entries fresh = []" by (simp add: fresh_def)
  from put_no_dedup[OF inv_fresh l order_refl order_refl n s t, of 10]
  show ?thesis using inv_fresh l unfolding e by simp
qed

text \<open>
  C8 as stated fails when the lookup comes after the second entry has expired. Both
  runs insert the key twice into the fresh context, where nothing is evicted and the
  list holds the two entries. In the first the lookup at 3621 expires both entries and
  misses. In the second the clock value of the second \<open>put\<close> is the older one: the
  lookup at 4000 removes the second entry as expired and returns the first value.
\<close>

theorem put_no_dedup_counterexample:
  "run (query_cache_create_context True) [Put ''q'' ''one'' 10 3, Put ''q'' ''two'' 20 3]
     = Inr ([Ret 0, Ret 0],
            Some (with_entries fresh [new_entry ''q'' ''two'' 20, new_entry ''q'' ''one'' 10])) \<and>
   map_sum id fst (run (query_cache_create_context True)
       [Put ''q'' ''one'' 10 3, Put ''q'' ''two'' 20 3, Get ''q'' 3621])
     = Inr [Ret 0, Ret 0, GetRet 1 None] \<and>
   run (query_cache_create_context True) [Put ''q'' ''one'' 5000 3, Put ''q'' ''two'' 0 3]
     = Inr ([Ret 0, Ret 0],
            Some (with_entries fresh [new_entry ''q'' ''two'' 0, new_entry ''q'' ''one'' 5000])) \<and>
   map_sum id fst (run (query_cache_create_context True)
       [Put ''q'' ''one'' 5000 3, Put ''q'' ''two'' 0 3, Get ''q'' 4000])
     = Inr [Ret 0, Ret 0, GetRet 0 (Some (''one'', 3))]"
  by code_simp

text \<open>
  C9. \<open>query_cache_destroy_context(NULL)\<close> returns normally and frees nothing.
  \<open>get\<close>, \<open>invalidate\<close> and \<open>clear\<close> dereference a null context, and so
  does \<open>put\<close> once its three allocations have succeeded.
\<close>

theorem destroy_null_context:
  "query_cache_destroy_context None = Inr [] \<and>
   query_cache_get None qry now = Inl NullDereference \<and>
   query_cache_put None qry res now (3 + n) = Inl NullDereference \<and>
   query_cache_invalidate None table = Inl NullDereference \<and>
   query_cache_clear None = Inl NullDereference"
  by (simp add: query_cache_destroy_context_def query_cache_get_def query_cache_put_def
      query_cache_invalidate_def query_cache_clear_def)

text \<open>
  C10. \<open>query_cache_invalidate\<close> returns 0 and does not read the clock: the list
  afterwards is the old list without the entries on which the \<open>strstr\<close> test
  succeeds. In particular the entries whose key does not contain the table name are
  the same before and after, as records (time stamps and access count included) and
  in their order, whatever their age.
\<close>

theorem invalidate_frame:
  "\<exists>c'. query_cache_invalidate (Some c) table = Inr (0, c') \<and>
     entries c' =
       filter (\<lambda>e. strstr (c_str (query e @ [NUL])) (c_str table) = None) (entries c) \<and>
     filter (\<lambda>e. \<not> sublist (c_str table) (query e)) (entries c')
       = filter (\<lambda>e. \<not> sublist (c_str table) (query e)) (entries c)"
proof -
  let ?c' = "invalidate_from c table 0"
  have e: "entries ?c' = filter (\<lambda>e. \<not> mentions table e) (entries c)"
    using invalidate_char[of c table] by simp
  have e': "entries ?c' =
       filter (\<lambda>e. strstr (c_str (query e @ [NUL])) (c_str table) = None) (entries c)"
    unfolding e mentions_def by simp
  have "filter (\<lambda>e. \<not> sublist (c_str table) (query e)) (entries ?c')
       = filter (\<lambda>e. \<not> sublist (c_str table) (query e)) (entries c)"
    unfolding e filter_filter
    by (rule filter_cong[OF refl]) (use not_contained_not_mentioned in blast)
  then show ?thesis
    using e' invalidate_char[of c table] by (intro exI[of _ ?c']) simp
qed

text \<open>
  The statement at the two-key cache, whose entries were created at time 0.
\<close>

theorem invalidate_frame_witness:
  "\<exists>c'. query_cache_invalidate (Some (with_entries fresh
             [new_entry ''SELECT * FROM users'' ''u'' 0,
              new_entry ''SELECT * FROM orders'' ''o'' 0])) ''orders'' = Inr (0, c') \<and>
          entries c' = [new_entry ''SELECT * FROM users'' ''u'' 0]"
proof -
  have s: "strstr (c_str (''SELECT * FROM users'' @ [NUL])) (c_str ''orders'') = None"
          "strstr (c_str (''SELECT * FROM orders'' @ [NUL])) (c_str ''orders'') \<noteq> None"
    by code_simp+
  from invalidate_frame[of "with_entries fresh
             [new_entry ''SELECT * FROM users'' ''u'' 0,
              new_entry ''SELECT * FROM orders'' ''o'' 0]" "''orders''"]
  show ?thesis using s by auto
qed

end
